theory Spec2Isabelle
  imports Main
begin

section \<open>JavaScript values used by the diff parser\<close>

subsection \<open>Strings\<close>

text \<open>
  A JavaScript string is modelled as an Isabelle \<open>string\<close>: a list of characters, one per
  code unit.  Isabelle characters are bytes, so the model covers the texts whose code
  units fit in a byte.  Every character the program inspects (\<open>@\<close>, \<open>+\<close>, \<open>-\<close>, the comma,
  the blank, the digits and the line feed) is ASCII; it copies all others unchanged.
\<close>

definition newline :: char where
  "newline = CHR 0x0A"

text \<open>\<^verbatim>\<open>s.startsWith(p)\<close>\<close>

fun startsWith :: "string \<Rightarrow> string \<Rightarrow> bool" where
  "startsWith s [] = True"
| "startsWith [] (p # ps) = False"
| "startsWith (c # cs) (p # ps) = (c = p \<and> startsWith cs ps)"

text \<open>
  \<^verbatim>\<open>s.split('\n')\<close>: the pieces between line feeds.  The result is never empty; the
  empty string gives one empty piece, and a text that ends in a line feed gives a last
  piece that is empty.
\<close>

fun split_nl :: "string \<Rightarrow> string list" where
  "split_nl [] = [[]]"
| "split_nl (c # cs) =
     (if c = newline then [] # split_nl cs
      else (case split_nl cs of
              [] \<Rightarrow> [[c]]
            | l # ls \<Rightarrow> (c # l) # ls))"

text \<open>\<^verbatim>\<open>xs.join("\n")\<close>\<close>

fun join_nl :: "string list \<Rightarrow> string" where
  "join_nl [] = []"
| "join_nl [l] = l"
| "join_nl (l # m # ls) = l @ newline # join_nl (m # ls)"

subsection \<open>Numbers\<close>

text \<open>
  A JavaScript number is an IEEE 754 double.  The parser only ever holds non-negative
  whole numbers and \<open>Infinity\<close>: \<^verbatim>\<open>parseInt\<close> of a run of digits, and the results of
  \<^verbatim>\<open>++\<close> on such values.  \<open>Fin n\<close> is the double whose value is the natural number
  \<open>n\<close>.
\<close>

datatype jsnum = Fin nat | Infinity

text \<open>The number of binary digits of \<open>n\<close>.\<close>

fun bit_length :: "nat \<Rightarrow> nat" where
  "bit_length n = (if n = 0 then 0 else Suc (bit_length (n div 2)))"

declare bit_length.simps [simp del]

text \<open>
  The double nearest to the natural number \<open>n\<close>, ties to the even significand
  (the rounding of IEEE 754 that JavaScript prescribes for every arithmetic result).
  Whole numbers up to \<open>2 ^ 53\<close> are doubles themselves.  Above, a double has a
  significand \<open>q\<close> of 53 binary digits and the spacing \<open>ulp\<close> of its binade; a rounded
  value of \<open>2 ^ 1024\<close> or more is \<open>Infinity\<close>.
\<close>

definition round_double :: "nat \<Rightarrow> jsnum" where
  "round_double n =
     (if n \<le> 2 ^ 53 then Fin n
      else
        let ulp = 2 ^ (bit_length n - 53);
            q = n div ulp;
            r = n mod ulp;
            q' = (if 2 * r < ulp then q
                  else if ulp < 2 * r then q + 1
                  else if even q then q else q + 1);
            v = q' * ulp
        in if 2 ^ 1024 \<le> v then Infinity else Fin v)"

text \<open>\<^verbatim>\<open>x++\<close> stores \<open>x + 1\<close>: the exact sum, rounded.  \<open>Infinity + 1\<close> is \<open>Infinity\<close>.\<close>

fun js_inc :: "jsnum \<Rightarrow> jsnum" where
  "js_inc (Fin n) = round_double (n + 1)"
| "js_inc Infinity = Infinity"

text \<open>\<^verbatim>\<open>x >= y\<close> on these values.\<close>

fun js_ge :: "jsnum \<Rightarrow> jsnum \<Rightarrow> bool" where
  "js_ge (Fin a) (Fin b) = (b \<le> a)"
| "js_ge Infinity y = True"
| "js_ge (Fin a) Infinity = False"

text \<open>
  \<^verbatim>\<open>x - y\<close> for \<open>x >= y\<close>.  The difference of two doubles is the exact difference,
  rounded; \<open>Infinity - Infinity\<close> is \<open>NaN\<close> and \<open>Infinity - n\<close> is \<open>Infinity\<close>, neither
  of which is a count, so the result is optional.
\<close>

fun js_minus :: "jsnum \<Rightarrow> jsnum \<Rightarrow> nat option" where
  "js_minus (Fin a) (Fin b) =
     (if b \<le> a then (case round_double (a - b) of Fin d \<Rightarrow> Some d | Infinity \<Rightarrow> None)
      else None)"
| "js_minus Infinity y = None"
| "js_minus (Fin a) Infinity = None"

text \<open>The characters matched by \<^verbatim>\<open>\d\<close> (no \<^verbatim>\<open>u\<close> flag: ASCII digits only).\<close>

definition is_digit :: "char \<Rightarrow> bool" where
  "is_digit c = (c \<in> set ''0123456789'')"

definition digit_val :: "char \<Rightarrow> nat" where
  "digit_val c = of_char c - 48"

text \<open>
  \<^verbatim>\<open>parseInt(ds)\<close> for a non-empty run of ASCII digits \<open>ds\<close>: no sign, no blank and no
  \<^verbatim>\<open>0x\<close> prefix can occur, so the radix is ten and the result is the number value of
  the decimal numeral (leading zeros allowed).  For a numeral of more than 20 significant
  digits the language standard lets an implementation replace the later digits by zeros
  before it rounds; the model rounds the exact value.  Such a numeral is above \<open>2 ^ 53\<close>
  either way.
\<close>

definition decimal_value :: "string \<Rightarrow> nat" where
  "decimal_value ds = foldl (\<lambda>a c. 10 * a + digit_val c) 0 ds"

definition parseInt :: "string \<Rightarrow> jsnum" where
  "parseInt ds = round_double (decimal_value ds)"

section \<open>The unified-diff parser (server/index.ts, parseDiff)\<close>

record hunk =
  header :: string
  lines :: "string list"
  startLine :: jsnum
  endLine :: jsnum

text \<open>
  The regular expression \<^verbatim>\<open>/@@ -(\d+),?\d* \+(\d+),?\d* @@/\<close>.

  \<open>strip_prefix p s\<close> consumes the literal \<open>p\<close>.  \<open>skip_range s\<close> consumes
  \<^verbatim>\<open>(\d+),?\d*\<close> and returns the captured digits with the rest.  Both \<^verbatim>\<open>\d+\<close> and
  \<^verbatim>\<open>\d*\<close> are greedy and the character that must follow the range is a blank, so the
  greedy choice is the only one that can succeed: giving back digits of the group would
  only hand them to \<^verbatim>\<open>\d*\<close>, and giving back the comma leaves a comma where the blank
  must be.  Hence the capture is the whole leading run of digits.
\<close>

fun strip_prefix :: "string \<Rightarrow> string \<Rightarrow> string option" where
  "strip_prefix [] s = Some s"
| "strip_prefix (p # ps) [] = None"
| "strip_prefix (p # ps) (c # cs) = (if p = c then strip_prefix ps cs else None)"

definition skip_range :: "string \<Rightarrow> (string \<times> string) option" where
  "skip_range s =
     (let ds = takeWhile is_digit s;
          rest = dropWhile is_digit s
      in if ds = [] then None
         else (case rest of
                 c # cs \<Rightarrow> if c = CHR '','' then Some (ds, dropWhile is_digit cs)
                           else Some (ds, rest)
               | [] \<Rightarrow> Some (ds, rest)))"

text \<open>A match of the whole expression that starts at the first character of \<open>s\<close>;
  the result is the second group.\<close>

definition match_here :: "string \<Rightarrow> string option" where
  "match_here s =
     (case strip_prefix ''@@ -'' s of
        None \<Rightarrow> None
      | Some s1 \<Rightarrow>
          (case skip_range s1 of
             None \<Rightarrow> None
           | Some (g1, s2) \<Rightarrow>
               (case strip_prefix '' +'' s2 of
                  None \<Rightarrow> None
                | Some s3 \<Rightarrow>
                    (case skip_range s3 of
                       None \<Rightarrow> None
                     | Some (g2, s4) \<Rightarrow>
                         (case strip_prefix '' @@'' s4 of
                            None \<Rightarrow> None
                          | Some s5 \<Rightarrow> Some g2)))))"

text \<open>\<^verbatim>\<open>line.match(...)\<close> is not anchored: the leftmost position that matches wins.
  The result is \<^verbatim>\<open>match[2]\<close>, or \<open>None\<close> for \<^verbatim>\<open>null\<close>.\<close>

fun match_header :: "string \<Rightarrow> string option" where
  "match_header [] = None"
| "match_header (c # cs) =
     (case match_here (c # cs) of
        Some g \<Rightarrow> Some g
      | None \<Rightarrow> match_header cs)"

definition is_hunk_header :: "string \<Rightarrow> bool" where
  "is_hunk_header line = startsWith line ''@@''"

definition is_added :: "string \<Rightarrow> bool" where
  "is_added line = (startsWith line ''+'' \<and> \<not> startsWith line ''+++'')"

text \<open>
  One turn of the loop of \<open>parseDiff\<close>.  The state is the pair of \<^verbatim>\<open>hunks\<close> and
  \<^verbatim>\<open>currentHunk\<close> (\<open>None\<close> for \<^verbatim>\<open>null\<close>).
\<close>

definition new_hunk :: "string \<Rightarrow> hunk" where
  "new_hunk line =
     (let start = (case match_header line of Some g \<Rightarrow> parseInt g | None \<Rightarrow> Fin 0)
      in \<lparr>header = line, lines = [line], startLine = start, endLine = start\<rparr>)"

definition push_line :: "hunk \<Rightarrow> string \<Rightarrow> hunk" where
  "push_line h line =
     h\<lparr>lines := lines h @ [line],
       endLine := (if is_added line then js_inc (endLine h) else endLine h)\<rparr>"

fun flush :: "hunk list \<Rightarrow> hunk option \<Rightarrow> hunk list" where
  "flush hunks None = hunks"
| "flush hunks (Some h) = hunks @ [h]"

fun parse_step :: "hunk list \<times> hunk option \<Rightarrow> string \<Rightarrow> hunk list \<times> hunk option" where
  "parse_step (hunks, cur) line =
     (if is_hunk_header line then (flush hunks cur, Some (new_hunk line))
      else (case cur of
              Some h \<Rightarrow> (hunks, Some (push_line h line))
            | None \<Rightarrow> (hunks, None)))"

definition parse_lines :: "hunk list \<times> hunk option \<Rightarrow> string list \<Rightarrow> hunk list" where
  "parse_lines st ls = (case foldl parse_step st ls of (hunks, cur) \<Rightarrow> flush hunks cur)"

definition parseDiff :: "string \<Rightarrow> hunk list" where
  "parseDiff diffOutput = parse_lines ([], None) (split_nl diffOutput)"


subsection \<open>Predicates used to state the parser's properties\<close>

text \<open>A hunk whose \<open>lines\<close> is not empty and starts with its header, a \<^verbatim>\<open>@@\<close> line.\<close>

definition well_formed_hunk :: "hunk \<Rightarrow> bool" where
  "well_formed_hunk h =
     (lines h \<noteq> [] \<and> hd (lines h) = header h \<and> is_hunk_header (header h))"

text \<open>
  The original text minus the preamble, in the words of the specification: everything
  before the first line that begins with \<^verbatim>\<open>@@\<close> is dropped, the rest is kept as it is.
  The flag says whether the text starts at the beginning of a line.
\<close>

fun preamble_dropped :: "bool \<Rightarrow> string \<Rightarrow> string" where
  "preamble_dropped at_start [] = []"
| "preamble_dropped at_start (c # cs) =
     (if at_start \<and> is_hunk_header (c # cs) then c # cs
      else preamble_dropped (c = newline) cs)"

text \<open>The number of lines of a hunk that begin with \<^verbatim>\<open>+\<close> but not with \<^verbatim>\<open>+++\<close>.\<close>

definition added_count :: "hunk \<Rightarrow> nat" where
  "added_count h = length (filter is_added (lines h))"

text \<open>The values that are doubles: fixed points of the rounding, and \<open>Infinity\<close>.\<close>

fun is_double :: "jsnum \<Rightarrow> bool" where
  "is_double (Fin n) = (round_double n = Fin n)"
| "is_double Infinity = True"

definition counted_hunk :: "hunk \<Rightarrow> bool" where
  "counted_hunk h =
     (is_double (endLine h) \<and> js_ge (endLine h) (startLine h) \<and>
      (\<forall>s. startLine h = Fin s \<and> s + added_count h \<le> 2 ^ 53 \<longrightarrow>
           endLine h = Fin (s + added_count h)))"

section \<open>The backend: file system, clock and git\<close>

text \<open>
  The calls that leave the server process, as the handlers write them:
  \<^verbatim>\<open>fs.writeFile(path, content)\<close>, \<^verbatim>\<open>fs.unlink(path)\<close>, and on \<^verbatim>\<open>simpleGit(repoPath)\<close>
  \<^verbatim>\<open>raw(args)\<close>, \<^verbatim>\<open>add(file)\<close>, \<^verbatim>\<open>commit(message, files, options)\<close>, \<^verbatim>\<open>status()\<close> and
  \<^verbatim>\<open>log({maxCount})\<close>.  The first argument of a git call is the repository path.
\<close>

datatype call =
    FsWriteFile string string
  | FsUnlink string
  | GitRaw string "string list"
  | GitAdd string string
  | GitCommit string string "string list" "(string \<times> string) list"
  | GitStatus string
  | GitLog string nat

text \<open>A rejected promise carries an \<^verbatim>\<open>Error\<close> with a message.\<close>

datatype thrown = Error string

fun message_of :: "thrown \<Rightarrow> string" where
  "message_of (Error m) = m"

datatype change_kind = Modified | Created | Deleted | Renamed

record file_status =
  path :: string
  status :: change_kind
  from_path :: "string option"

record commit =
  hash :: string
  shortHash :: string
  message :: string
  author :: string
  date :: string
  refs :: string

text \<open>
  The world outside the program.  Each answer may depend on the calls made so far
  (the trace): \<open>outcome\<close> says whether a call resolves (\<open>None\<close>) or rejects, \<open>now\<close> is
  the reading of \<^verbatim>\<open>Date.now()\<close> in milliseconds, \<open>status_files\<close> and \<open>log_commits\<close> are
  the lists the status and log handlers send back.
\<close>

record env =
  outcome :: "call list \<Rightarrow> call \<Rightarrow> thrown option"
  now :: "call list \<Rightarrow> nat"
  status_files :: "call list \<Rightarrow> file_status list"
  log_commits :: "call list \<Rightarrow> commit list"

text \<open>\<^verbatim>\<open>await\<close> of one call: the call is appended to the trace.\<close>

definition perform :: "env \<Rightarrow> call \<Rightarrow> call list \<Rightarrow> thrown option \<times> call list" where
  "perform e c tr = (outcome e tr c, tr @ [c])"

text \<open>The calls made after the trace \<open>tr\<close> in the longer trace \<open>tr'\<close>.\<close>

definition new_calls :: "call list \<Rightarrow> call list \<Rightarrow> call list" where
  "new_calls tr tr' = drop (length tr) tr'"

section \<open>The server (server/index.ts)\<close>

text \<open>
  A field of a request body is \<open>None\<close> when it is missing.  \<^verbatim>\<open>!x\<close> holds for a missing
  field and for the empty string.
\<close>

fun truthy :: "string option \<Rightarrow> bool" where
  "truthy None = False"
| "truthy (Some s) = (s \<noteq> [])"

fun the_string :: "string option \<Rightarrow> string" where
  "the_string None = []"
| "the_string (Some s) = s"

text \<open>
  A response: status 200 with its payload, status 400 with \<^verbatim>\<open>error\<close>, or status 500 with
  \<^verbatim>\<open>error\<close> and \<^verbatim>\<open>details\<close>.
\<close>

datatype 'a response = Ok200 'a | Bad400 string | Err500 string string

text \<open>The decimal numeral of a natural number, as a template literal prints a whole
  number below \<open>10 ^ 21\<close>.\<close>

fun decimal :: "nat \<Rightarrow> string" where
  "decimal n =
     (if n < 10 then [''0123456789'' ! n]
      else decimal (n div 10) @ [''0123456789'' ! (n mod 10)])"

declare decimal.simps [simp del]

text \<open>\<^verbatim>\<open>path.join('/tmp', `patch-${Date.now()}.patch`)\<close>\<close>

definition tempFile :: "nat \<Rightarrow> string" where
  "tempFile t = ''/tmp/patch-'' @ decimal t @ ''.patch''"

text \<open>The template literal \<^verbatim>\<open>patchContent\<close> of the stage handler.\<close>

definition patchContent :: "string \<Rightarrow> string \<Rightarrow> string" where
  "patchContent filePath hunk =
     ''diff --git a/'' @ filePath @ '' b/'' @ filePath @ [newline] @
     ''--- a/'' @ filePath @ [newline] @
     ''+++ b/'' @ filePath @ [newline] @
     hunk"

text \<open>
  The \<^verbatim>\<open>catch\<close> block around the apply: unlink, then rethrow.  A rejected unlink leaves
  the block with its own error.
\<close>

definition apply_catch :: "env \<Rightarrow> string \<Rightarrow> thrown \<Rightarrow> call list \<Rightarrow> thrown option \<times> call list" where
  "apply_catch e tmp err tr =
     (case perform e (FsUnlink tmp) tr of
        (None, tr') \<Rightarrow> (Some err, tr')
      | (Some err', tr') \<Rightarrow> (Some err', tr'))"

text \<open>The inner \<^verbatim>\<open>try\<close>: apply, then unlink; any rejection enters the \<^verbatim>\<open>catch\<close> block.\<close>

definition apply_patch_file :: "env \<Rightarrow> string \<Rightarrow> string \<Rightarrow> call list \<Rightarrow> thrown option \<times> call list" where
  "apply_patch_file e repoPath tmp tr =
     (case perform e (GitRaw repoPath [''apply'', ''--cached'', tmp]) tr of
        (Some err, tr1) \<Rightarrow> apply_catch e tmp err tr1
      | (None, tr1) \<Rightarrow>
          (case perform e (FsUnlink tmp) tr1 of
             (Some err, tr2) \<Rightarrow> apply_catch e tmp err tr2
           | (None, tr2) \<Rightarrow> (None, tr2)))"

text \<open>The body of the outer \<^verbatim>\<open>try\<close> of the stage handler, after the validation.\<close>

definition stage_body ::
  "env \<Rightarrow> string \<Rightarrow> string \<Rightarrow> string option \<Rightarrow> call list \<Rightarrow> thrown option \<times> call list" where
  "stage_body e repoPath filePath hunk tr =
     (if truthy hunk then
        (let tmp = tempFile (now e tr)
         in case perform e (FsWriteFile tmp (patchContent filePath (the_string hunk))) tr of
              (Some err, tr1) \<Rightarrow> (Some err, tr1)
            | (None, tr1) \<Rightarrow> apply_patch_file e repoPath tmp tr1)
      else perform e (GitAdd repoPath filePath) tr)"

text \<open>\<^verbatim>\<open>app.post('/api/repo/stage', ...)\<close>\<close>

definition post_repo_stage ::
  "env \<Rightarrow> string option \<Rightarrow> string option \<Rightarrow> string option \<Rightarrow> call list
    \<Rightarrow> string response \<times> call list" where
  "post_repo_stage e repoPath filePath hunk tr =
     (if \<not> truthy repoPath \<or> \<not> truthy filePath
      then (Bad400 ''Repository path and file path are required'', tr)
      else (case stage_body e (the_string repoPath) (the_string filePath) hunk tr of
              (None, tr') \<Rightarrow>
                (Ok200 (if truthy hunk then ''Hunk staged successfully''
                        else ''File staged successfully''), tr')
            | (Some err, tr') \<Rightarrow> (Err500 ''Failed to stage changes'' (message_of err), tr')))"

text \<open>\<^verbatim>\<open>app.post('/api/repo/fixup', ...)\<close>\<close>

definition post_repo_fixup ::
  "env \<Rightarrow> string option \<Rightarrow> string option \<Rightarrow> call list \<Rightarrow> string response \<times> call list" where
  "post_repo_fixup e repoPath targetCommit tr =
     (if \<not> truthy repoPath \<or> \<not> truthy targetCommit
      then (Bad400 ''Repository path and target commit are required'', tr)
      else (case perform e (GitCommit (the_string repoPath)
                              (''fixup! '' @ the_string targetCommit) []
                              [(''--fixup'', the_string targetCommit)]) tr of
              (None, tr') \<Rightarrow> (Ok200 ''Fixup commit created successfully'', tr')
            | (Some err, tr') \<Rightarrow>
                (Err500 ''Failed to create fixup commit'' (message_of err), tr')))"

text \<open>\<^verbatim>\<open>app.post('/api/repo/rebase', ...)\<close>\<close>

definition post_repo_rebase ::
  "env \<Rightarrow> string option \<Rightarrow> string option \<Rightarrow> call list \<Rightarrow> string response \<times> call list" where
  "post_repo_rebase e repoPath targetCommit tr =
     (if \<not> truthy repoPath \<or> \<not> truthy targetCommit
      then (Bad400 ''Repository path and target commit are required'', tr)
      else (case perform e (GitRaw (the_string repoPath)
                              [''rebase'', ''-i'', ''--autosquash'',
                               the_string targetCommit @ ''^'']) tr of
              (None, tr') \<Rightarrow> (Ok200 ''Rebase completed successfully'', tr')
            | (Some err, tr') \<Rightarrow> (Err500 ''Failed to rebase'' (message_of err), tr')))"

text \<open>\<^verbatim>\<open>app.post('/api/repo/status', ...)\<close>; the payload is the \<^verbatim>\<open>files\<close> array.\<close>

definition post_repo_status ::
  "env \<Rightarrow> string option \<Rightarrow> call list \<Rightarrow> file_status list response \<times> call list" where
  "post_repo_status e repoPath tr =
     (if \<not> truthy repoPath then (Bad400 ''Repository path is required'', tr)
      else (case perform e (GitStatus (the_string repoPath)) tr of
              (None, tr') \<Rightarrow> (Ok200 (status_files e tr), tr')
            | (Some err, tr') \<Rightarrow>
                (Err500 ''Failed to get repository status'' (message_of err), tr')))"

text \<open>\<^verbatim>\<open>app.post('/api/repo/log', ...)\<close>; the payload is the \<^verbatim>\<open>commits\<close> array.\<close>

definition post_repo_log ::
  "env \<Rightarrow> string option \<Rightarrow> nat \<Rightarrow> call list \<Rightarrow> commit list response \<times> call list" where
  "post_repo_log e repoPath maxCount tr =
     (if \<not> truthy repoPath then (Bad400 ''Repository path is required'', tr)
      else (case perform e (GitLog (the_string repoPath) maxCount) tr of
              (None, tr') \<Rightarrow> (Ok200 (log_commits e tr), tr')
            | (Some err, tr') \<Rightarrow> (Err500 ''Failed to get commit log'' (message_of err), tr')))"

section \<open>The client (src/lib/api.ts)\<close>

text \<open>
  A request function posts the JSON body to its handler.  A response that is not ok
  makes it throw \<^verbatim>\<open>new Error(error.error || fallback)\<close>; otherwise it returns the
  payload.  \<open>Inl\<close> is the thrown error.
\<close>

definition or_default :: "string \<Rightarrow> string \<Rightarrow> string" where
  "or_default s d = (if s = [] then d else s)"

fun from_response :: "string \<Rightarrow> 'a response \<Rightarrow> thrown + 'a" where
  "from_response fallback (Ok200 payload) = Inr payload"
| "from_response fallback (Bad400 err) = Inl (Error (or_default err fallback))"
| "from_response fallback (Err500 err details) = Inl (Error (or_default err fallback))"

text \<open>\<^verbatim>\<open>api.stageChanges(repoPath, filePath, hunk?)\<close>; a missing \<^verbatim>\<open>hunk\<close> is left out
  of the body.\<close>

definition stageChanges ::
  "env \<Rightarrow> string \<Rightarrow> string \<Rightarrow> string option \<Rightarrow> call list \<Rightarrow> (thrown + string) \<times> call list" where
  "stageChanges e repoPath filePath hunk tr =
     (case post_repo_stage e (Some repoPath) (Some filePath) hunk tr of
        (resp, tr') \<Rightarrow> (from_response ''Failed to stage changes'' resp, tr'))"

definition createFixup ::
  "env \<Rightarrow> string \<Rightarrow> string \<Rightarrow> call list \<Rightarrow> (thrown + string) \<times> call list" where
  "createFixup e repoPath targetCommit tr =
     (case post_repo_fixup e (Some repoPath) (Some targetCommit) tr of
        (resp, tr') \<Rightarrow> (from_response ''Failed to create fixup commit'' resp, tr'))"

definition rebase ::
  "env \<Rightarrow> string \<Rightarrow> string \<Rightarrow> call list \<Rightarrow> (thrown + string) \<times> call list" where
  "rebase e repoPath targetCommit tr =
     (case post_repo_rebase e (Some repoPath) (Some targetCommit) tr of
        (resp, tr') \<Rightarrow> (from_response ''Failed to rebase'' resp, tr'))"

definition getStatus ::
  "env \<Rightarrow> string \<Rightarrow> call list \<Rightarrow> (thrown + file_status list) \<times> call list" where
  "getStatus e repoPath tr =
     (case post_repo_status e (Some repoPath) tr of
        (resp, tr') \<Rightarrow> (from_response ''Failed to get repository status'' resp, tr'))"

definition getLog ::
  "env \<Rightarrow> string \<Rightarrow> nat \<Rightarrow> call list \<Rightarrow> (thrown + commit list) \<times> call list" where
  "getLog e repoPath maxCount tr =
     (case post_repo_log e (Some repoPath) maxCount tr of
        (resp, tr') \<Rightarrow> (from_response ''Failed to get commit log'' resp, tr'))"

section \<open>The squash workflow (src/components/CommitSquasher.tsx)\<close>

datatype step = SelectFiles | SelectHunks | SelectCommit | Confirm

text \<open>
  The state of the component.  \<open>selectedHunks\<close> is a \<^verbatim>\<open>Set<number>\<close>, which iterates in
  insertion order: a list without duplicates.  \<open>currentDiff\<close> holds \<^verbatim>\<open>filePath\<close> and
  \<^verbatim>\<open>hunks\<close>.
\<close>

record squasher =
  loading :: bool
  error :: "string option"
  success :: "string option"
  step :: step
  files :: "file_status list"
  commits :: "commit list"
  selectedFile :: "string option"
  selectedHunks :: "nat list"
  selectedCommit :: "string option"
  currentDiff :: "(string \<times> hunk list) option"

text \<open>
  \<^verbatim>\<open>loadData\<close>.  \<^verbatim>\<open>Promise.all\<close> sends both requests, status first, whatever the
  answer to the first; it rejects when one of them rejects.
\<close>

definition loadData :: "env \<Rightarrow> string \<Rightarrow> squasher \<Rightarrow> call list \<Rightarrow> squasher \<times> call list" where
  "loadData e repoPath st tr =
     (let st1 = st\<lparr>loading := True, error := None\<rparr>
      in case getStatus e repoPath tr of
           (statusData, tr1) \<Rightarrow>
             (case getLog e repoPath 50 tr1 of
                (logData, tr2) \<Rightarrow>
                  (case (statusData, logData) of
                     (Inr fs, Inr cs) \<Rightarrow>
                       (let st2 = st1\<lparr>files := fs, commits := cs\<rparr>;
                            st3 = (if length fs = 0
                                   then st2\<lparr>error := Some ''No changed files in working directory''\<rparr>
                                   else st2)
                        in (st3\<lparr>loading := False\<rparr>, tr2))
                   | (Inl err, _) \<Rightarrow>
                       (st1\<lparr>error := Some (message_of err), loading := False\<rparr>, tr2)
                   | (Inr fs, Inl err) \<Rightarrow>
                       (st1\<lparr>error := Some (message_of err), loading := False\<rparr>, tr2))))"

text \<open>
  The loop \<^verbatim>\<open>for (const hunkIndex of selectedHunks)\<close>.  An index outside
  \<^verbatim>\<open>currentDiff.hunks\<close> reads \<^verbatim>\<open>undefined\<close>, and \<^verbatim>\<open>hunk.lines\<close> then throws a
  \<^verbatim>\<open>TypeError\<close>.  The first rejection ends the loop.
\<close>

definition undefined_hunk :: thrown where
  "undefined_hunk = Error ''Cannot read properties of undefined (reading 'lines')''"

fun stage_hunks ::
  "env \<Rightarrow> string \<Rightarrow> string \<Rightarrow> hunk list \<Rightarrow> nat list \<Rightarrow> call list \<Rightarrow> thrown option \<times> call list" where
  "stage_hunks e repoPath file hunks [] tr = (None, tr)"
| "stage_hunks e repoPath file hunks (hunkIndex # rest) tr =
     (if hunkIndex < length hunks then
        (let hunkContent = join_nl (lines (hunks ! hunkIndex))
         in case stageChanges e repoPath file (Some hunkContent) tr of
              (Inl err, tr') \<Rightarrow> (Some err, tr')
            | (Inr ok, tr') \<Rightarrow> stage_hunks e repoPath file hunks rest tr')
      else (Some undefined_hunk, tr))"

text \<open>The first statement of the \<^verbatim>\<open>try\<close> block: the selected hunks, or the whole file.\<close>

definition stage_selection ::
  "env \<Rightarrow> string \<Rightarrow> string \<Rightarrow> squasher \<Rightarrow> call list \<Rightarrow> thrown option \<times> call list" where
  "stage_selection e repoPath file st tr =
     (case currentDiff st of
        Some (diffPath, hunks) \<Rightarrow>
          if length (selectedHunks st) > 0
          then stage_hunks e repoPath file hunks (selectedHunks st) tr
          else (case stageChanges e repoPath file None tr of
                  (Inl err, tr') \<Rightarrow> (Some err, tr')
                | (Inr ok, tr') \<Rightarrow> (None, tr'))
      | None \<Rightarrow>
          (case stageChanges e repoPath file None tr of
             (Inl err, tr') \<Rightarrow> (Some err, tr')
           | (Inr ok, tr') \<Rightarrow> (None, tr')))"

text \<open>The three backend phases of the \<^verbatim>\<open>try\<close> block, up to the first rejection.\<close>

definition squash_calls ::
  "env \<Rightarrow> string \<Rightarrow> string \<Rightarrow> string \<Rightarrow> squasher \<Rightarrow> call list \<Rightarrow> thrown option \<times> call list" where
  "squash_calls e repoPath file target st tr =
     (case stage_selection e repoPath file st tr of
        (Some err, tr1) \<Rightarrow> (Some err, tr1)
      | (None, tr1) \<Rightarrow>
          (case createFixup e repoPath target tr1 of
             (Inl err, tr2) \<Rightarrow> (Some err, tr2)
           | (Inr ok, tr2) \<Rightarrow>
               (case rebase e repoPath target tr2 of
                  (Inl err, tr3) \<Rightarrow> (Some err, tr3)
                | (Inr ok', tr3) \<Rightarrow> (None, tr3))))"

text \<open>\<^verbatim>\<open>handleSquash\<close>\<close>

definition handleSquash :: "env \<Rightarrow> string \<Rightarrow> squasher \<Rightarrow> call list \<Rightarrow> squasher \<times> call list" where
  "handleSquash e repoPath st tr =
     (if \<not> truthy (selectedFile st) \<or> \<not> truthy (selectedCommit st)
      then (st\<lparr>error := Some ''Please select a file and target commit''\<rparr>, tr)
      else
        (let file = the_string (selectedFile st);
             target = the_string (selectedCommit st);
             st1 = st\<lparr>loading := True, error := None, success := None\<rparr>
         in case squash_calls e repoPath file target st tr of
              (Some err, tr1) \<Rightarrow> (st1\<lparr>error := Some (message_of err), loading := False\<rparr>, tr1)
            | (None, tr1) \<Rightarrow>
                (let st2 = st1\<lparr>success := Some (''Successfully squashed changes into commit ''
                                                  @ take 7 target),
                               step := SelectFiles,
                               selectedFile := None,
                               selectedHunks := [],
                               selectedCommit := None,
                               currentDiff := None\<rparr>
                 in case loadData e repoPath st2 tr1 of
                      (st3, tr2) \<Rightarrow> (st3\<lparr>loading := False\<rparr>, tr2))))"

section \<open>Notation and fixtures for the scenarios\<close>

text \<open>The three calls of the hunk path of the stage handler when the clock reads \<open>t\<close>.\<close>

abbreviation write_call :: "string \<Rightarrow> string \<Rightarrow> nat \<Rightarrow> call" where
  "write_call filePath hunk t \<equiv> FsWriteFile (tempFile t) (patchContent filePath hunk)"

abbreviation apply_call :: "string \<Rightarrow> nat \<Rightarrow> call" where
  "apply_call repoPath t \<equiv> GitRaw repoPath [''apply'', ''--cached'', tempFile t]"

abbreviation unlink_call :: "nat \<Rightarrow> call" where
  "unlink_call t \<equiv> FsUnlink (tempFile t)"

text \<open>
  A backend on which every call resolves; the clock advances by one millisecond per call.
  The status and the log are empty.
\<close>

definition env_all_ok :: env where
  "env_all_ok =
     \<lparr>outcome = (\<lambda>tr c. None),
      now = (\<lambda>tr. 1700000000000 + length tr),
      status_files = (\<lambda>tr. []),
      log_commits = (\<lambda>tr. [])\<rparr>"

text \<open>The same backend with a clock that reads the same millisecond at every call.\<close>

definition env_same_ms :: env where
  "env_same_ms = env_all_ok\<lparr>now := (\<lambda>tr. 1700000000000)\<rparr>"

text \<open>A backend that rejects the fifth call: in a squash of two hunks, the second apply.\<close>

definition env_second_apply_fails :: env where
  "env_second_apply_fails =
     env_all_ok\<lparr>outcome := (\<lambda>tr c.
        if length tr = 4 then Some (Error ''error: patch failed: a.txt:10'') else None)\<rparr>"

text \<open>A backend that rejects the second call and the third: the apply of a hunk-stage
  request, and the unlink that follows it.\<close>

definition env_apply_and_unlink_fail :: env where
  "env_apply_and_unlink_fail =
     env_all_ok\<lparr>outcome := (\<lambda>tr c.
        if length tr = 1 then Some (Error ''error: patch failed: a.txt:1'')
        else if length tr = 2 then Some (Error ''EPERM: operation not permitted, unlink'')
        else None)\<rparr>"

text \<open>A diff of the file \<^verbatim>\<open>a.txt\<close> with two hunks, and a component state in which the
  file, the first hunk and the commit \<^verbatim>\<open>abc1234\<close> are selected.\<close>

definition two_hunk_diff :: string where
  "two_hunk_diff = ''--- a/a.txt\<newline>+++ b/a.txt\<newline>@@ -1,2 +1,3 @@\<newline> x\<newline>+y\<newline>@@ -10 +11,2 @@\<newline> z\<newline>+w\<newline>''"

definition ready_to_squash :: squasher where
  "ready_to_squash =
     \<lparr>loading = False, error = None, success = None, step = SelectCommit,
      files = [\<lparr>path = ''a.txt'', status = Modified, from_path = None\<rparr>], commits = [],
      selectedFile = Some ''a.txt'', selectedHunks = [0], selectedCommit = Some ''abc1234'',
      currentDiff = Some (''a.txt'', parseDiff two_hunk_diff)\<rparr>"

text \<open>The content last written to the file \<open>f\<close> by the calls of a trace.\<close>

fun last_written :: "string \<Rightarrow> call list \<Rightarrow> string option" where
  "last_written f [] = None"
| "last_written f (c # cs) =
     (case last_written f cs of
        Some d \<Rightarrow> Some d
      | None \<Rightarrow> (case c of FsWriteFile g d \<Rightarrow> if g = f then Some d else None | _ \<Rightarrow> None))"

text \<open>
  A backend whose apply refuses a patch that does not end in a line feed, as git does
  (it reports a corrupt patch); every other call resolves.
\<close>

definition env_strict_apply :: env where
  "env_strict_apply =
     env_all_ok\<lparr>outcome := (\<lambda>tr c.
        case c of
          GitRaw repo args \<Rightarrow>
            if take 2 args = [''apply'', ''--cached''] then
              (case last_written (last args) tr of
                 Some d \<Rightarrow> if d \<noteq> [] \<and> last d = newline then None
                           else Some (Error ''error: corrupt patch'')
               | None \<Rightarrow> Some (Error ''error: cannot open patch''))
            else None
        | _ \<Rightarrow> None)\<rparr>"

subsection \<open>The documents passed to the apply\<close>

text \<open>The file that a call applies to the index: the last argument of
  \<^verbatim>\<open>raw(['apply', '--cached', file])\<close>.\<close>

fun applied_file :: "call \<Rightarrow> string option" where
  "applied_file (GitRaw repo args) =
     (if length args = 3 \<and> take 2 args = [''apply'', ''--cached''] then Some (args ! 2) else None)"
| "applied_file c = None"

text \<open>
  The transient files after a call made at the trace \<open>tr\<close>: a write that resolves stores
  its content, an unlink that resolves removes the file, a call that rejects and every
  other call leave the files as they are.
\<close>

fun file_effect :: "env \<Rightarrow> call list \<Rightarrow> (string \<rightharpoonup> string) \<Rightarrow> call \<Rightarrow> (string \<rightharpoonup> string)" where
  "file_effect e tr fs (FsWriteFile f d) =
     (if outcome e tr (FsWriteFile f d) = None then fs(f \<mapsto> d) else fs)"
| "file_effect e tr fs (FsUnlink f) =
     (if outcome e tr (FsUnlink f) = None then fs(f := None) else fs)"
| "file_effect e tr fs c = fs"

text \<open>
  The documents passed to the apply calls among \<open>calls\<close>, made one after the other from
  the trace \<open>tr\<close> on with the files \<open>fs\<close>: at each apply, what the applied file holds
  (\<open>None\<close> when there is no such file).
\<close>

fun applied_documents ::
  "env \<Rightarrow> call list \<Rightarrow> (string \<rightharpoonup> string) \<Rightarrow> call list \<Rightarrow> string option list" where
  "applied_documents e tr fs [] = []"
| "applied_documents e tr fs (c # cs) =
     (case applied_file c of Some f \<Rightarrow> [fs f] | None \<Rightarrow> [])
     @ applied_documents e (tr @ [c]) (file_effect e tr fs c) cs"

section \<open>Properties of the parser\<close>

subsection \<open>The loop\<close>

lemma parse_lines_Nil: "parse_lines (hs, cur) [] = flush hs cur"
  by (simp add: parse_lines_def)

lemma parse_lines_Cons: "parse_lines st (l # ls) = parse_lines (parse_step st l) ls"
  by (simp add: parse_lines_def)

lemma header_push_line: "header (push_line h l) = header h"
  by (simp add: push_line_def)

lemma lines_push_line: "lines (push_line h l) = lines h @ [l]"
  by (simp add: push_line_def)

lemma header_new_hunk: "header (new_hunk l) = l"
  by (simp add: new_hunk_def Let_def)

lemma lines_new_hunk: "lines (new_hunk l) = [l]"
  by (simp add: new_hunk_def Let_def)

lemma headers_parse_lines:
  "map header (parse_lines (hs, cur) ls) = map header (flush hs cur) @ filter is_hunk_header ls"
proof (induction ls arbitrary: hs cur)
  case Nil
  show ?case by (simp add: parse_lines_Nil)
next
  case (Cons l ls)
  show ?case
  proof (cases "is_hunk_header l")
    case True
    then show ?thesis
      by (simp add: parse_lines_Cons Cons.IH header_new_hunk)
  next
    case False
    then show ?thesis
      by (cases cur) (simp_all add: parse_lines_Cons Cons.IH header_push_line)
  qed
qed

lemma lines_parse_lines:
  "concat (map lines (parse_lines (hs, cur) ls)) =
     concat (map lines (flush hs cur)) @
     (case cur of None \<Rightarrow> dropWhile (\<lambda>l. \<not> is_hunk_header l) ls | Some h \<Rightarrow> ls)"
proof (induction ls arbitrary: hs cur)
  case Nil
  show ?case by (cases cur) (simp_all add: parse_lines_Nil)
next
  case (Cons l ls)
  show ?case
  proof (cases "is_hunk_header l")
    case True
    then show ?thesis
      by (cases cur) (simp_all add: parse_lines_Cons Cons.IH lines_new_hunk)
  next
    case False
    then show ?thesis
      by (cases cur) (simp_all add: parse_lines_Cons Cons.IH lines_push_line)
  qed
qed

lemma well_formed_new_hunk: "is_hunk_header l \<Longrightarrow> well_formed_hunk (new_hunk l)"
  by (simp add: well_formed_hunk_def new_hunk_def Let_def)

lemma well_formed_push_line: "well_formed_hunk h \<Longrightarrow> well_formed_hunk (push_line h l)"
  by (simp add: well_formed_hunk_def push_line_def)

lemma parse_lines_invariant:
  assumes new: "\<And>l. is_hunk_header l \<Longrightarrow> Q (new_hunk l)"
    and push: "\<And>h l. Q h \<Longrightarrow> Q (push_line h l)"
  shows "list_all Q (flush hs cur) \<Longrightarrow> list_all Q (parse_lines (hs, cur) ls)"
proof (induction ls arbitrary: hs cur)
  case Nil
  then show ?case by (simp add: parse_lines_Nil)
next
  case (Cons l ls)
  show ?case
  proof (cases "is_hunk_header l")
    case True
    with Cons.prems have "list_all Q (flush (flush hs cur) (Some (new_hunk l)))"
      by (simp add: new)
    then show ?thesis using True
      by (simp add: parse_lines_Cons Cons.IH)
  next
    case False
    show ?thesis
    proof (cases cur)
      case None
      with False Cons.prems show ?thesis
        by (simp add: parse_lines_Cons Cons.IH)
    next
      case (Some h)
      with Cons.prems have "list_all Q (flush hs (Some (push_line h l)))"
        by (simp add: push)
      with False Some show ?thesis
        by (simp add: parse_lines_Cons Cons.IH)
    qed
  qed
qed

lemma parseDiff_invariant:
  assumes "\<And>l. is_hunk_header l \<Longrightarrow> Q (new_hunk l)"
    and "\<And>h l. Q h \<Longrightarrow> Q (push_line h l)"
    and "h \<in> set (parseDiff text)"
  shows "Q h"
proof -
  have "list_all Q (parseDiff text)"
    unfolding parseDiff_def by (rule parse_lines_invariant) (simp_all add: assms(1,2))
  with assms(3) show ?thesis by (simp add: list_all_iff)
qed

lemma well_formed_parseDiff: "h \<in> set (parseDiff text) \<Longrightarrow> well_formed_hunk h"
  by (rule parseDiff_invariant [where Q = well_formed_hunk])
    (simp_all add: well_formed_new_hunk well_formed_push_line)

lemma split_nl_not_Nil: "split_nl t \<noteq> []"
  by (induction t) (auto split: list.splits)

lemma join_nl_Cons: "ls \<noteq> [] \<Longrightarrow> join_nl (l # ls) = l @ newline # join_nl ls"
  by (cases ls) simp_all

lemma join_split_nl: "join_nl (split_nl t) = t"
proof (induction t)
  case Nil
  show ?case by simp
next
  case (Cons c cs)
  show ?case
  proof (cases "c = newline")
    case True
    then show ?thesis using Cons.IH by (simp add: join_nl_Cons split_nl_not_Nil)
  next
    case False
    obtain l ls where s: "split_nl cs = l # ls"
      using split_nl_not_Nil [of cs] by (cases "split_nl cs") auto
    show ?thesis
    proof (cases ls)
      case Nil
      with False s Cons.IH show ?thesis by simp
    next
      case (Cons m ms)
      with False s Cons.IH show ?thesis by simp
    qed
  qed
qed

lemma split_nl_no_newline: "l \<in> set (split_nl t) \<Longrightarrow> newline \<notin> set l"
proof (induction t arbitrary: l)
  case Nil
  then show ?case by simp
next
  case (Cons c cs)
  then show ?case
    by (auto split: if_splits list.splits)
qed

lemma startsWith_append:
  "newline \<notin> set l \<Longrightarrow> newline \<notin> set p \<Longrightarrow>
   startsWith (l @ newline # r) p = startsWith l p"
  by (induction l p rule: startsWith.induct) auto

lemma preamble_dropped_False_line:
  "newline \<notin> set l \<Longrightarrow> preamble_dropped False (l @ newline # r) = preamble_dropped True r"
  by (induction l) auto

lemma preamble_dropped_False_last:
  "newline \<notin> set l \<Longrightarrow> preamble_dropped False l = []"
  by (induction l) auto

lemma is_hunk_header_line:
  "newline \<notin> set l \<Longrightarrow> is_hunk_header (l @ newline # r) = is_hunk_header l"
  unfolding is_hunk_header_def by (rule startsWith_append) (simp_all add: newline_def)

lemma preamble_dropped_header:
  "is_hunk_header l \<Longrightarrow> is_hunk_header (l @ r) \<Longrightarrow> preamble_dropped True (l @ r) = l @ r"
  by (cases l) (simp_all add: is_hunk_header_def)

lemma preamble_dropped_other:
  assumes "\<not> is_hunk_header l" "newline \<notin> set l"
  shows "preamble_dropped True (l @ newline # r) = preamble_dropped True r"
    and "preamble_dropped True l = []"
proof -
  have a: "\<not> is_hunk_header (l @ newline # r)"
    using assms by (simp add: is_hunk_header_line)
  show "preamble_dropped True (l @ newline # r) = preamble_dropped True r"
  proof (cases l)
    case Nil
    with a show ?thesis by simp
  next
    case (Cons c cs)
    with assms have "c \<noteq> newline" "newline \<notin> set cs" by auto
    with a Cons show ?thesis
      by (simp add: preamble_dropped_False_line)
  qed
  show "preamble_dropped True l = []"
  proof (cases l)
    case Nil
    then show ?thesis by simp
  next
    case (Cons c cs)
    with assms have "c \<noteq> newline" "newline \<notin> set cs" by auto
    with assms Cons show ?thesis
      by (simp add: preamble_dropped_False_last)
  qed
qed

lemma preamble_dropped_join:
  "\<forall>l \<in> set ls. newline \<notin> set l \<Longrightarrow>
   preamble_dropped True (join_nl ls) = join_nl (dropWhile (\<lambda>l. \<not> is_hunk_header l) ls)"
proof (induction ls)
  case Nil
  show ?case by simp
next
  case (Cons l ls)
  show ?case
  proof (cases "is_hunk_header l")
    case True
    then show ?thesis
      using Cons.prems preamble_dropped_header [of l "[]"]
        preamble_dropped_header [of l "newline # join_nl ls"]
      by (cases ls) (simp_all add: join_nl_Cons is_hunk_header_line)
  next
    case False
    with Cons show ?thesis
      by (cases ls) (simp_all add: join_nl_Cons preamble_dropped_other)
  qed
qed

subsection \<open>Rounding to doubles\<close>

lemma bit_length_le_iff: "bit_length n \<le> j \<longleftrightarrow> n < 2 ^ j"
proof (induction j arbitrary: n)
  case 0
  show ?case by (subst bit_length.simps) simp
next
  case (Suc j)
  have "n div 2 < 2 ^ j \<longleftrightarrow> n < 2 * 2 ^ j" by auto
  with Suc [of "n div 2"] show ?case
    by (subst bit_length.simps) auto
qed

lemma bit_length_even_Suc: "even n \<Longrightarrow> 0 < n \<Longrightarrow> bit_length (Suc n) = bit_length n"
  by (subst bit_length.simps, subst (2) bit_length.simps) auto

lemma round_double_small: "n \<le> 2 ^ 53 \<Longrightarrow> round_double n = Fin n"
  by (simp add: round_double_def)

lemma round_double_fixed:
  assumes "2 ^ (bit_length v - 53) dvd v" "v < 2 ^ 1024"
  shows "round_double v = Fin v"
proof (cases "v \<le> 2 ^ 53")
  case True
  then show ?thesis by (rule round_double_small)
next
  case False
  define u :: nat where "u = 2 ^ (bit_length v - 53)"
  have u: "0 < u" "v mod u = 0" "v div u * u = v"
    using assms(1) by (simp_all add: u_def)
  show ?thesis
    using False assms(2) u unfolding round_double_def Let_def u_def [symmetric]
    by simp
qed

lemma round_double_cases:
  assumes "\<not> n \<le> 2 ^ 53"
  obtains (inf) "round_double n = Infinity"
  | (fin) q where "round_double n = Fin (q * 2 ^ (bit_length n - 53))"
      "n div 2 ^ (bit_length n - 53) \<le> q" "q \<le> 2 ^ 53" "q * 2 ^ (bit_length n - 53) < 2 ^ 1024"
proof -
  define e where "e = bit_length n - 53"
  define q where "q = n div 2 ^ e"
  define r where "r = n mod 2 ^ e"
  define q' where "q' = (if 2 * r < 2 ^ e then q else if 2 ^ e < 2 * r then q + 1
                  else if even q then q else q + 1)"
  have rd: "round_double n = (if 2 ^ 1024 \<le> q' * 2 ^ e then Infinity else Fin (q' * 2 ^ e))"
    using assms unfolding round_double_def Let_def q'_def q_def r_def e_def by simp
  have "bit_length n \<le> e + 53" by (simp add: e_def)
  then have "n < 2 ^ (e + 53)" by (simp add: bit_length_le_iff)
  then have "n < 2 ^ 53 * 2 ^ e" by (simp add: power_add mult.commute)
  then have "q < 2 ^ 53" unfolding q_def
    by (simp add: less_mult_imp_div_less)
  then have b: "q \<le> q'" "q' \<le> 2 ^ 53" by (auto simp: q'_def)
  show ?thesis
  proof (cases "2 ^ 1024 \<le> q' * 2 ^ e")
    case True
    with rd inf show ?thesis by simp
  next
    case False
    with rd b fin [of q'] show ?thesis by (simp add: e_def q_def)
  qed
qed

lemma is_double_round_double: "is_double (round_double n)"
proof (cases "n \<le> 2 ^ 53")
  case True
  then show ?thesis by (simp add: round_double_small)
next
  case False
  then show ?thesis
  proof (cases rule: round_double_cases)
    case inf
    then show ?thesis by simp
  next
    case (fin q)
    define e where "e = bit_length n - 53"
    define v where "v = q * 2 ^ e"
    have "2 ^ (bit_length v - 53) dvd v"
    proof (cases "q = 2 ^ 53")
      case True
      then have "v = 2 ^ (e + 53)" by (simp add: v_def power_add)
      then have "v < 2 ^ (e + 54)" by simp
      then have "bit_length v \<le> e + 54" by (simp add: bit_length_le_iff)
      then have "bit_length v - 53 \<le> e + 53" by simp
      then have "(2::nat) ^ (bit_length v - 53) dvd 2 ^ (e + 53)" by (rule le_imp_power_dvd)
      with \<open>v = 2 ^ (e + 53)\<close> show ?thesis by simp
    next
      case False
      with fin(3) have "q < 2 ^ 53" by simp
      then have "q * 2 ^ e < 2 ^ 53 * 2 ^ e" by simp
      then have "v < 2 ^ (e + 53)" by (simp add: v_def power_add mult.commute)
      then have "bit_length v \<le> e + 53" by (simp add: bit_length_le_iff)
      then have "bit_length v - 53 \<le> e" by simp
      then have "(2::nat) ^ (bit_length v - 53) dvd 2 ^ e" by (rule le_imp_power_dvd)
      then show ?thesis by (simp add: v_def)
    qed
    moreover have "v < 2 ^ 1024" using fin(4) by (simp add: v_def e_def)
    ultimately have "round_double v = Fin v" by (rule round_double_fixed)
    with fin(1) show ?thesis by (simp add: v_def e_def)
  qed
qed

lemma is_double_dvd:
  assumes "is_double (Fin n)" "\<not> n \<le> 2 ^ 53"
  shows "2 ^ (bit_length n - 53) dvd n"
  using assms(2)
proof (cases rule: round_double_cases)
  case inf
  with assms(1) show ?thesis by simp
next
  case (fin q)
  with assms(1) have "n = q * 2 ^ (bit_length n - 53)" by simp
  then show ?thesis by (metis dvd_triv_right)
qed

lemma js_ge_refl: "js_ge x x"
  by (cases x) simp_all

lemma js_ge_trans: "js_ge x y \<Longrightarrow> js_ge y z \<Longrightarrow> js_ge x z"
  by (cases x; cases y; cases z) simp_all

lemma js_inc_ge:
  assumes "is_double x"
  shows "js_ge (js_inc x) x"
proof (cases x)
  case Infinity
  then show ?thesis by simp
next
  case (Fin n)
  show ?thesis
  proof (cases "Suc n \<le> 2 ^ 53")
    case True
    with Fin show ?thesis by (simp add: round_double_small)
  next
    case False
    have d: "2 ^ (bit_length (Suc n) - 53) dvd n"
    proof (cases "n \<le> 2 ^ 53")
      case True
      with False have n: "n = 2 ^ 53" by simp
      have "Suc n < 2 ^ 54" by (simp add: n)
      then have "bit_length (Suc n) \<le> 54" by (simp add: bit_length_le_iff)
      then have "bit_length (Suc n) - 53 \<le> 53" by simp
      then have "(2::nat) ^ (bit_length (Suc n) - 53) dvd 2 ^ 53" by (rule le_imp_power_dvd)
      then show ?thesis by (simp add: n)
    next
      case False
      with assms Fin have dv: "2 ^ (bit_length n - 53) dvd n"
        by (simp add: is_double_dvd)
      from False have "\<not> n < 2 ^ 53" by simp
      then have "\<not> bit_length n \<le> 53" by (simp add: bit_length_le_iff)
      then have "(2::nat) dvd 2 ^ (bit_length n - 53)" by simp
      then have "even n" using dv by (rule dvd_trans)
      moreover from False have "0 < n" by (cases n) simp_all
      ultimately have "bit_length (Suc n) = bit_length n" by (rule bit_length_even_Suc)
      with dv show ?thesis by simp
    qed
    from False show ?thesis
    proof (cases rule: round_double_cases)
      case inf
      with Fin show ?thesis by simp
    next
      case (fin q)
      define u :: nat where "u = 2 ^ (bit_length (Suc n) - 53)"
      have "0 < u" by (simp add: u_def)
      from d have "n div u * u = n" by (simp add: u_def)
      moreover have "n div u \<le> Suc n div u" by (rule div_le_mono) simp
      moreover have "Suc n div u \<le> q" using fin(2) by (simp add: u_def)
      ultimately have "n \<le> q * u"
        by (metis le_trans mult_le_mono1)
      then have "js_ge (Fin (q * u)) (Fin n)" by simp
      with fin(1) Fin show ?thesis by (simp only: js_inc.simps Suc_eq_plus1 [symmetric] u_def)
    qed
  qed
qed

subsection \<open>Counting added lines\<close>

lemma header_not_added: "is_hunk_header l \<Longrightarrow> \<not> is_added l"
  by (cases l) (auto simp: is_added_def is_hunk_header_def)

lemma counted_new_hunk:
  assumes "is_hunk_header l"
  shows "counted_hunk (new_hunk l)"
proof -
  have "is_double (startLine (new_hunk l))"
    by (simp add: new_hunk_def Let_def parseInt_def is_double_round_double round_double_small
        split: option.split)
  moreover have "endLine (new_hunk l) = startLine (new_hunk l)"
    by (simp add: new_hunk_def Let_def)
  moreover have "added_count (new_hunk l) = 0"
    using assms by (simp add: added_count_def lines_new_hunk header_not_added)
  ultimately show ?thesis
    by (simp add: counted_hunk_def js_ge_refl)
qed

lemma endLine_push_line:
  "endLine (push_line h l) = (if is_added l then js_inc (endLine h) else endLine h)"
  by (simp add: push_line_def)

lemma startLine_push_line: "startLine (push_line h l) = startLine h"
  by (simp add: push_line_def)

lemma added_count_push_line:
  "added_count (push_line h l) = (if is_added l then Suc (added_count h) else added_count h)"
  by (simp add: added_count_def lines_push_line)

lemma counted_push_line:
  assumes "counted_hunk h"
  shows "counted_hunk (push_line h l)"
proof (cases "is_added l")
  case False
  with assms show ?thesis
    by (simp add: counted_hunk_def added_count_push_line startLine_push_line endLine_push_line)
next
  case True
  then have e: "endLine (push_line h l) = js_inc (endLine h)"
    by (simp add: endLine_push_line)
  from assms have d: "is_double (endLine h)" and g: "js_ge (endLine h) (startLine h)"
    by (simp_all add: counted_hunk_def)
  have "is_double (js_inc (endLine h))"
    by (cases "endLine h") (simp_all add: is_double_round_double)
  moreover have "js_ge (js_inc (endLine h)) (startLine h)"
    using js_inc_ge [OF d] g by (rule js_ge_trans)
  moreover have "js_inc (endLine h) = Fin (s + Suc (added_count h))"
    if "startLine h = Fin s" "s + Suc (added_count h) \<le> 2 ^ 53" for s
  proof -
    from that have "s + added_count h \<le> 2 ^ 53" by simp
    with assms that(1) have "endLine h = Fin (s + added_count h)"
      by (simp add: counted_hunk_def)
    with that(2) show ?thesis by (simp add: round_double_small)
  qed
  ultimately show ?thesis
    using True by (simp add: counted_hunk_def e added_count_push_line startLine_push_line)
qed

lemma counted_parseDiff: "h \<in> set (parseDiff diffOutput) \<Longrightarrow> counted_hunk h"
  by (rule parseDiff_invariant [where Q = counted_hunk])
    (simp_all add: counted_new_hunk counted_push_line)

subsection \<open>Evaluation on concrete diffs\<close>

text \<open>The matcher on some headers: the capture is the start of the new-file range of the
  leftmost match; a comma may stand without a count.\<close>

lemma match_header_examples:
  "match_header ''@@ -1,2 +3,4 @@ foo'' = Some ''3''"
  "match_header ''@@ -10 +12 @@'' = Some ''12''"
  "match_header ''@@ -1, +0077, @@'' = Some ''0077''"
  "match_header ''@@ x @@ -1,2,3 +5 @@ -1,2 +6,8 @@'' = Some ''6''"
  "match_header ''@@ garbage @@'' = None"
  "match_header ''@@ -1,2 +3,4@@'' = None"
  "match_header ''@@ -,2 +3,4 @@'' = None"
  by (simp_all add: match_here_def skip_range_def is_digit_def)

lemmas parser_eval =
  parseDiff_def parse_lines_def newline_def is_hunk_header_def is_added_def new_hunk_def
  push_line_def match_here_def skip_range_def is_digit_def parseInt_def decimal_value_def
  digit_val_def Let_def

lemma parseDiff_two_hunks_eval:
  "parseDiff ''--- a/a.txt\<newline>+++ b/a.txt\<newline>@@ -1,2 +1,3 @@\<newline> x\<newline>+y\<newline>@@ -10 +11,2 @@\<newline> z\<newline>+w\<newline>'' =
   [\<lparr>header = ''@@ -1,2 +1,3 @@'', lines = [''@@ -1,2 +1,3 @@'', '' x'', ''+y''],
      startLine = Fin 1, endLine = Fin 2\<rparr>,
    \<lparr>header = ''@@ -10 +11,2 @@'', lines = [''@@ -10 +11,2 @@'', '' z'', ''+w'', ''''],
      startLine = Fin 11, endLine = Fin 12\<rparr>]"
  by (simp add: parser_eval round_double_def)

lemma parseDiff_large_start_eval:
  "parseDiff ''@@ -1 +9007199254740992 @@\<newline>+a'' =
    [\<lparr>header = ''@@ -1 +9007199254740992 @@'', lines = [''@@ -1 +9007199254740992 @@'', ''+a''],
       startLine = Fin 9007199254740992, endLine = Fin 9007199254740992\<rparr>]"
  by (simp add: parser_eval round_double_def bit_length.simps)

lemma parseDiff_garbage_eval:
  "parseDiff ''@@ garbage @@\<newline>+line\<newline>'' =
    [\<lparr>header = ''@@ garbage @@'', lines = [''@@ garbage @@'', ''+line'', ''''],
       startLine = Fin 0, endLine = Fin 1\<rparr>]"
  by (simp add: parser_eval round_double_def)

subsection \<open>The claims about the parser\<close>

text \<open>
  C1 (parser round trip).  For every diff text, \<open>parseDiff\<close> returns as many hunks as the
  text has lines that begin with \<^verbatim>\<open>@@\<close>, their headers are these lines in order, the
  \<open>lines\<close> of every hunk is not empty and starts with the header of the hunk, and the
  \<open>lines\<close> of all hunks, concatenated in order and joined with line feeds, give back the
  text without its preamble (the lines before the first \<^verbatim>\<open>@@\<close> line).
\<close>

theorem parseDiff_round_trip:
  "length (parseDiff diffOutput) = length (filter is_hunk_header (split_nl diffOutput))
   \<and> map header (parseDiff diffOutput) = filter is_hunk_header (split_nl diffOutput)
   \<and> (\<forall>h \<in> set (parseDiff diffOutput). lines h \<noteq> [] \<and> hd (lines h) = header h)
   \<and> join_nl (concat (map lines (parseDiff diffOutput))) = preamble_dropped True diffOutput"
proof -
  have h: "map header (parseDiff diffOutput) = filter is_hunk_header (split_nl diffOutput)"
    by (simp add: parseDiff_def headers_parse_lines)
  have n: "length (parseDiff diffOutput) = length (filter is_hunk_header (split_nl diffOutput))"
    using arg_cong [OF h, of length] by simp
  have w: "\<forall>h \<in> set (parseDiff diffOutput). lines h \<noteq> [] \<and> hd (lines h) = header h"
    using well_formed_parseDiff [of _ diffOutput] by (simp add: well_formed_hunk_def)
  have "concat (map lines (parseDiff diffOutput)) = dropWhile (\<lambda>l. \<not> is_hunk_header l) (split_nl diffOutput)"
    by (simp add: parseDiff_def lines_parse_lines)
  then have "join_nl (concat (map lines (parseDiff diffOutput))) = preamble_dropped True (join_nl (split_nl diffOutput))"
    using preamble_dropped_join [of "split_nl diffOutput"] split_nl_no_newline by simp
  then have j: "join_nl (concat (map lines (parseDiff diffOutput))) = preamble_dropped True diffOutput"
    by (simp add: join_split_nl)
  from n h w j show ?thesis by blast
qed

text \<open>
  Witness for C1: a diff with a two-line preamble and two hunks.  The first hunk is a
  member of the result, there are two hunks, and the joined lines are the text from the
  first \<^verbatim>\<open>@@\<close> line on.
\<close>

theorem parseDiff_round_trip_witness:
  "\<lparr>header = ''@@ -1,2 +1,3 @@'', lines = [''@@ -1,2 +1,3 @@'', '' x'', ''+y''],
      startLine = Fin 1, endLine = Fin 2\<rparr>
     \<in> set (parseDiff ''--- a/a.txt\<newline>+++ b/a.txt\<newline>@@ -1,2 +1,3 @@\<newline> x\<newline>+y\<newline>@@ -10 +11,2 @@\<newline> z\<newline>+w\<newline>'')
   \<and> hd (lines \<lparr>header = ''@@ -1,2 +1,3 @@'', lines = [''@@ -1,2 +1,3 @@'', '' x'', ''+y''],
      startLine = Fin 1, endLine = Fin 2\<rparr>) = ''@@ -1,2 +1,3 @@''
   \<and> length (parseDiff ''--- a/a.txt\<newline>+++ b/a.txt\<newline>@@ -1,2 +1,3 @@\<newline> x\<newline>+y\<newline>@@ -10 +11,2 @@\<newline> z\<newline>+w\<newline>'') = 2
   \<and> map header (parseDiff ''--- a/a.txt\<newline>+++ b/a.txt\<newline>@@ -1,2 +1,3 @@\<newline> x\<newline>+y\<newline>@@ -10 +11,2 @@\<newline> z\<newline>+w\<newline>'')
       = [''@@ -1,2 +1,3 @@'', ''@@ -10 +11,2 @@'']
   \<and> join_nl (concat (map lines (parseDiff ''--- a/a.txt\<newline>+++ b/a.txt\<newline>@@ -1,2 +1,3 @@\<newline> x\<newline>+y\<newline>@@ -10 +11,2 @@\<newline> z\<newline>+w\<newline>'')))
       = ''@@ -1,2 +1,3 @@\<newline> x\<newline>+y\<newline>@@ -10 +11,2 @@\<newline> z\<newline>+w\<newline>''"
  using parseDiff_round_trip [of "''--- a/a.txt\<newline>+++ b/a.txt\<newline>@@ -1,2 +1,3 @@\<newline> x\<newline>+y\<newline>@@ -10 +11,2 @@\<newline> z\<newline>+w\<newline>''"]
  by (simp add: parseDiff_two_hunks_eval newline_def is_hunk_header_def)

text \<open>
  C2 (endLine accounting), as amended.  For every hunk returned by \<open>parseDiff\<close>,
  \<open>endLine >= startLine\<close>; and when \<open>startLine\<close> is the number \<open>s\<close> and \<open>s\<close> plus the
  number of added lines (lines that begin with \<^verbatim>\<open>+\<close> but not with \<^verbatim>\<open>+++\<close>) is at most
  \<open>2 ^ 53\<close>, then \<open>endLine\<close> is \<open>s\<close> plus that number and \<open>endLine - startLine\<close> is that
  number.  Up to \<open>2 ^ 53\<close> every whole number is a double, so \<^verbatim>\<open>endLine++\<close> is exact.
\<close>

theorem parseDiff_endLine_accounting:
  assumes "h \<in> set (parseDiff diffOutput)"
  shows "js_ge (endLine h) (startLine h)
    \<and> (startLine h = Fin s \<and> s + added_count h \<le> 2 ^ 53 \<longrightarrow>
         endLine h = Fin (s + added_count h)
         \<and> js_minus (endLine h) (startLine h) = Some (added_count h))"
proof -
  from assms have c: "counted_hunk h" by (rule counted_parseDiff)
  then have g: "js_ge (endLine h) (startLine h)" by (simp add: counted_hunk_def)
  have "endLine h = Fin (s + added_count h)
      \<and> js_minus (endLine h) (startLine h) = Some (added_count h)"
    if "startLine h = Fin s" "s + added_count h \<le> 2 ^ 53"
  proof -
    from c that have e: "endLine h = Fin (s + added_count h)"
      by (simp add: counted_hunk_def)
    from that(2) have "added_count h \<le> 2 ^ 53" by simp
    then have "round_double (added_count h) = Fin (added_count h)" by (rule round_double_small)
    with e that(1) show ?thesis by simp
  qed
  with g show ?thesis by blast
qed

text \<open>
  Witness for C2: the second hunk of the two-hunk diff starts at line 11 and has one
  added line.
\<close>

theorem parseDiff_endLine_accounting_witness:
  "\<lparr>header = ''@@ -10 +11,2 @@'', lines = [''@@ -10 +11,2 @@'', '' z'', ''+w'', ''''],
      startLine = Fin 11, endLine = Fin 12\<rparr>
     \<in> set (parseDiff ''--- a/a.txt\<newline>+++ b/a.txt\<newline>@@ -1,2 +1,3 @@\<newline> x\<newline>+y\<newline>@@ -10 +11,2 @@\<newline> z\<newline>+w\<newline>'')
   \<and> 11 + added_count \<lparr>header = ''@@ -10 +11,2 @@'', lines = [''@@ -10 +11,2 @@'', '' z'', ''+w'', ''''],
      startLine = Fin 11, endLine = Fin 12\<rparr> \<le> 2 ^ 53
   \<and> js_ge (Fin 12) (Fin 11)
   \<and> js_minus (Fin 12) (Fin 11) = Some (added_count \<lparr>header = ''@@ -10 +11,2 @@'', lines = [''@@ -10 +11,2 @@'', '' z'', ''+w'', ''''],
      startLine = Fin 11, endLine = Fin 12\<rparr>)"
proof -
  let ?h = "\<lparr>header = ''@@ -10 +11,2 @@'', lines = [''@@ -10 +11,2 @@'', '' z'', ''+w'', ''''],
      startLine = Fin 11, endLine = Fin 12\<rparr>"
  let ?t = "''--- a/a.txt\<newline>+++ b/a.txt\<newline>@@ -1,2 +1,3 @@\<newline> x\<newline>+y\<newline>@@ -10 +11,2 @@\<newline> z\<newline>+w\<newline>''"
  have m: "?h \<in> set (parseDiff ?t)" by (simp add: parseDiff_two_hunks_eval)
  have a: "11 + added_count ?h \<le> 2 ^ 53" by (simp add: added_count_def is_added_def)
  from parseDiff_endLine_accounting [OF m, of 11] m a show ?thesis by simp
qed

text \<open>
  Counterexample to C2 as stated: the header \<^verbatim>\<open>@@ -1 +9007199254740992 @@\<close> gives
  \<open>startLine = 2 ^ 53\<close>.  The hunk has one added line, but \<open>2 ^ 53 + 1\<close> is not a double
  and \<^verbatim>\<open>endLine++\<close> rounds back to \<open>2 ^ 53\<close>: \<open>endLine - startLine\<close> is 0, not 1.
\<close>

theorem endLine_accounting_counterexample:
  "hd (parseDiff ''@@ -1 +9007199254740992 @@\<newline>+a'')
      \<in> set (parseDiff ''@@ -1 +9007199254740992 @@\<newline>+a'')
   \<and> added_count (hd (parseDiff ''@@ -1 +9007199254740992 @@\<newline>+a'')) = 1
   \<and> js_minus (endLine (hd (parseDiff ''@@ -1 +9007199254740992 @@\<newline>+a'')))
               (startLine (hd (parseDiff ''@@ -1 +9007199254740992 @@\<newline>+a''))) = Some 0
   \<and> \<not> (js_ge (endLine (hd (parseDiff ''@@ -1 +9007199254740992 @@\<newline>+a'')))
               (startLine (hd (parseDiff ''@@ -1 +9007199254740992 @@\<newline>+a'')))
          \<and> js_minus (endLine (hd (parseDiff ''@@ -1 +9007199254740992 @@\<newline>+a'')))
               (startLine (hd (parseDiff ''@@ -1 +9007199254740992 @@\<newline>+a'')))
             = Some (added_count (hd (parseDiff ''@@ -1 +9007199254740992 @@\<newline>+a''))))"
  by (simp add: parseDiff_large_start_eval added_count_def is_added_def round_double_def)

text \<open>
  C3 (malformed header), as amended.  The text \<^verbatim>\<open>"@@ garbage @@\n+line\n"\<close> parses to
  exactly one hunk with \<open>startLine = 0\<close> and \<open>endLine = 1\<close>, whose \<open>lines\<close> has three
  elements: the header, \<^verbatim>\<open>+line\<close>, and the empty string that \<^verbatim>\<open>split('\n')\<close> yields
  after the final line feed.
\<close>

theorem parseDiff_malformed_header:
  "length (parseDiff ''@@ garbage @@\<newline>+line\<newline>'') = 1
   \<and> startLine (parseDiff ''@@ garbage @@\<newline>+line\<newline>'' ! 0) = Fin 0
   \<and> endLine (parseDiff ''@@ garbage @@\<newline>+line\<newline>'' ! 0) = Fin 1
   \<and> lines (parseDiff ''@@ garbage @@\<newline>+line\<newline>'' ! 0) = [''@@ garbage @@'', ''+line'', '''']"
  by (simp add: parseDiff_garbage_eval)

text \<open>
  Counterexample to C3 as stated: the \<open>lines\<close> of the hunk is not the two-element
  sequence of the header and \<^verbatim>\<open>+line\<close>.
\<close>

theorem malformed_header_counterexample:
  "\<not> (length (parseDiff ''@@ garbage @@\<newline>+line\<newline>'') = 1
   \<and> startLine (parseDiff ''@@ garbage @@\<newline>+line\<newline>'' ! 0) = Fin 0
   \<and> endLine (parseDiff ''@@ garbage @@\<newline>+line\<newline>'' ! 0) = Fin 1
   \<and> lines (parseDiff ''@@ garbage @@\<newline>+line\<newline>'' ! 0) = [''@@ garbage @@'', ''+line''])"
  by (simp add: parseDiff_garbage_eval)

section \<open>Properties of staging and of the squash workflow\<close>

subsection \<open>The stage handler\<close>

lemma new_calls_append: "new_calls tr (tr @ cs) = cs"
  by (simp add: new_calls_def)

lemma join_nl_well_formed: "well_formed_hunk h \<Longrightarrow> join_nl (lines h) \<noteq> []"
proof -
  assume w: "well_formed_hunk h"
  then obtain l ls where l: "lines h = l # ls" "is_hunk_header l"
    by (cases "lines h") (auto simp: well_formed_hunk_def)
  then have "l \<noteq> []" by (auto simp: is_hunk_header_def)
  with l(1) show ?thesis by (cases ls) simp_all
qed

lemma patchContent_lines:
  "ls \<noteq> [] \<Longrightarrow>
   patchContent p (join_nl ls) =
   join_nl ([''diff --git a/'' @ p @ '' b/'' @ p, ''--- a/'' @ p, ''+++ b/'' @ p] @ ls)"
  by (cases ls) (simp_all add: patchContent_def)

lemma stage_body_whole_file:
  "\<not> truthy hunk \<Longrightarrow>
   stage_body e repoPath filePath hunk tr =
     (outcome e tr (GitAdd repoPath filePath), tr @ [GitAdd repoPath filePath])"
  by (simp add: stage_body_def perform_def)

lemma stage_body_write_fails:
  assumes "hunk \<noteq> []" "outcome e tr (write_call filePath hunk (now e tr)) = Some err"
  shows "stage_body e repoPath filePath (Some hunk) tr =
     (Some err, tr @ [write_call filePath hunk (now e tr)])"
  using assms by (simp add: stage_body_def perform_def Let_def)

lemma stage_body_apply_fails:
  assumes "hunk \<noteq> []" "outcome e tr (write_call filePath hunk (now e tr)) = None"
    "outcome e (tr @ [write_call filePath hunk (now e tr)]) (apply_call repoPath (now e tr)) = Some err"
  shows "\<exists>err'. stage_body e repoPath filePath (Some hunk) tr =
     (Some err', tr @ [write_call filePath hunk (now e tr), apply_call repoPath (now e tr),
                       unlink_call (now e tr)])"
  using assms
  by (simp add: stage_body_def perform_def Let_def apply_patch_file_def apply_catch_def
      split: option.split)

lemma stage_body_all_ok:
  assumes "hunk \<noteq> []" "outcome e tr (write_call filePath hunk (now e tr)) = None"
    "outcome e (tr @ [write_call filePath hunk (now e tr)]) (apply_call repoPath (now e tr)) = None"
    "outcome e (tr @ [write_call filePath hunk (now e tr), apply_call repoPath (now e tr)])
       (unlink_call (now e tr)) = None"
  shows "stage_body e repoPath filePath (Some hunk) tr =
     (None, tr @ [write_call filePath hunk (now e tr), apply_call repoPath (now e tr),
                  unlink_call (now e tr)])"
  using assms
  by (simp add: stage_body_def perform_def Let_def apply_patch_file_def apply_catch_def)

lemma stage_body_unlink_fails:
  assumes "hunk \<noteq> []" "outcome e tr (write_call filePath hunk (now e tr)) = None"
    "outcome e (tr @ [write_call filePath hunk (now e tr)]) (apply_call repoPath (now e tr)) = None"
    "outcome e (tr @ [write_call filePath hunk (now e tr), apply_call repoPath (now e tr)])
       (unlink_call (now e tr)) = Some err"
  shows "\<exists>err'. stage_body e repoPath filePath (Some hunk) tr =
     (Some err', tr @ [write_call filePath hunk (now e tr), apply_call repoPath (now e tr),
                  unlink_call (now e tr), unlink_call (now e tr)])"
  using assms
  by (simp add: stage_body_def perform_def Let_def apply_patch_file_def apply_catch_def
      split: option.split)

lemma stage_body_hunk_calls:
  assumes "hunk \<noteq> []"
  shows "\<exists>rest. new_calls tr (snd (stage_body e repoPath filePath (Some hunk) tr)) =
            write_call filePath hunk (now e tr) # rest
          \<and> set rest \<subseteq> {apply_call repoPath (now e tr), unlink_call (now e tr)}
          \<and> (outcome e tr (write_call filePath hunk (now e tr)) = None \<longrightarrow>
               take 1 rest = [apply_call repoPath (now e tr)])"
proof (cases "outcome e tr (write_call filePath hunk (now e tr))")
  case (Some err)
  with assms show ?thesis by (simp add: stage_body_write_fails new_calls_append)
next
  case w: None
  show ?thesis
  proof (cases "outcome e (tr @ [write_call filePath hunk (now e tr)]) (apply_call repoPath (now e tr))")
    case (Some err)
    from stage_body_apply_fails [OF assms w Some] show ?thesis
      using w by (auto simp: new_calls_append)
  next
    case a: None
    show ?thesis
    proof (cases "outcome e (tr @ [write_call filePath hunk (now e tr), apply_call repoPath (now e tr)])
       (unlink_call (now e tr))")
      case None
      from stage_body_all_ok [OF assms w a None] show ?thesis
        using w by (auto simp: new_calls_append)
    next
      case (Some err)
      from stage_body_unlink_fails [OF assms w a Some] show ?thesis
        using w by (auto simp: new_calls_append)
    qed
  qed
qed

text \<open>Once the patch is written, the unlink is called on every path; and when the apply
  rejects and the unlink resolves, the response carries the error of the apply.\<close>

lemma unlink_on_every_exit:
  assumes "hunk \<noteq> []"
    and "outcome e tr (FsWriteFile (tempFile (now e tr)) (patchContent filePath hunk)) = None"
  shows "\<exists>rest. snd (stage_body e repoPath filePath (Some hunk) tr) =
           tr @ [FsWriteFile (tempFile (now e tr)) (patchContent filePath hunk),
                 GitRaw repoPath [''apply'', ''--cached'', tempFile (now e tr)],
                 FsUnlink (tempFile (now e tr))] @ rest"
proof (cases "outcome e (tr @ [write_call filePath hunk (now e tr)]) (apply_call repoPath (now e tr))")
  case (Some err)
  from stage_body_apply_fails [OF assms Some] show ?thesis by auto
next
  case a: None
  show ?thesis
  proof (cases "outcome e (tr @ [write_call filePath hunk (now e tr), apply_call repoPath (now e tr)])
       (unlink_call (now e tr))")
    case None
    from stage_body_all_ok [OF assms a None] show ?thesis by auto
  next
    case (Some err)
    from stage_body_unlink_fails [OF assms a Some] show ?thesis by auto
  qed
qed

lemma snd_post_repo_stage:
  "repoPath \<noteq> [] \<Longrightarrow> filePath \<noteq> [] \<Longrightarrow>
   snd (post_repo_stage e (Some repoPath) (Some filePath) hunk tr) =
   snd (stage_body e repoPath filePath hunk tr)"
  by (simp add: post_repo_stage_def split: prod.split option.split)

lemma snd_stageChanges:
  "snd (stageChanges e repoPath filePath hunk tr) =
   snd (post_repo_stage e (Some repoPath) (Some filePath) hunk tr)"
  by (simp add: stageChanges_def split: prod.split)

lemma apply_failure_propagates:
  assumes "repoPath \<noteq> []" "filePath \<noteq> []" "hunk \<noteq> []"
    and "outcome e tr (FsWriteFile (tempFile (now e tr)) (patchContent filePath hunk)) = None"
    and "outcome e (tr @ [FsWriteFile (tempFile (now e tr)) (patchContent filePath hunk)])
           (GitRaw repoPath [''apply'', ''--cached'', tempFile (now e tr)]) = Some apply_error"
    and "outcome e (tr @ [FsWriteFile (tempFile (now e tr)) (patchContent filePath hunk),
                          GitRaw repoPath [''apply'', ''--cached'', tempFile (now e tr)]])
           (FsUnlink (tempFile (now e tr))) = None"
  shows "post_repo_stage e (Some repoPath) (Some filePath) (Some hunk) tr =
     (Err500 ''Failed to stage changes'' (message_of apply_error),
      tr @ [FsWriteFile (tempFile (now e tr)) (patchContent filePath hunk),
            GitRaw repoPath [''apply'', ''--cached'', tempFile (now e tr)],
            FsUnlink (tempFile (now e tr))])"
  using assms
  by (simp add: post_repo_stage_def stage_body_def apply_patch_file_def apply_catch_def
      perform_def Let_def)

lemma post_repo_stage_hunk_calls:
  assumes "repoPath \<noteq> []" "filePath \<noteq> []" "hunk \<noteq> []"
  shows "take 1 (new_calls tr (snd (post_repo_stage e (Some repoPath) (Some filePath) (Some hunk) tr)))
           = [write_call filePath hunk (now e tr)]"
    and "outcome e tr (write_call filePath hunk (now e tr)) = None \<Longrightarrow>
         take 3 (new_calls tr (snd (post_repo_stage e (Some repoPath) (Some filePath) (Some hunk) tr)))
           = [write_call filePath hunk (now e tr), apply_call repoPath (now e tr),
              unlink_call (now e tr)]"
    and "outcome e tr (write_call filePath hunk (now e tr)) \<noteq> None \<Longrightarrow>
         new_calls tr (snd (post_repo_stage e (Some repoPath) (Some filePath) (Some hunk) tr))
           = [write_call filePath hunk (now e tr)]"
    and "GitAdd repoPath filePath
           \<notin> set (new_calls tr (snd (post_repo_stage e (Some repoPath) (Some filePath) (Some hunk) tr)))"
proof -
  show "take 1 (new_calls tr (snd (post_repo_stage e (Some repoPath) (Some filePath) (Some hunk) tr)))
           = [write_call filePath hunk (now e tr)]"
    using stage_body_hunk_calls [OF assms(3), of tr e repoPath filePath] assms(1,2)
    by (auto simp: snd_post_repo_stage)
  show "GitAdd repoPath filePath
           \<notin> set (new_calls tr (snd (post_repo_stage e (Some repoPath) (Some filePath) (Some hunk) tr)))"
    using stage_body_hunk_calls [OF assms(3), of tr e repoPath filePath] assms(1,2)
    by (auto simp: snd_post_repo_stage)
  show "take 3 (new_calls tr (snd (post_repo_stage e (Some repoPath) (Some filePath) (Some hunk) tr)))
           = [write_call filePath hunk (now e tr), apply_call repoPath (now e tr),
              unlink_call (now e tr)]"
    if "outcome e tr (write_call filePath hunk (now e tr)) = None"
    using unlink_on_every_exit [OF assms(3) that, of repoPath] assms(1,2)
    by (auto simp: snd_post_repo_stage new_calls_def)
  show "new_calls tr (snd (post_repo_stage e (Some repoPath) (Some filePath) (Some hunk) tr))
           = [write_call filePath hunk (now e tr)]"
    if "outcome e tr (write_call filePath hunk (now e tr)) \<noteq> None"
    using that stage_body_write_fails [OF assms(3), of e tr filePath _ repoPath] assms(1,2)
    by (auto simp: snd_post_repo_stage new_calls_append)
qed


subsection \<open>The requests of the client and the workflow\<close>

lemma stageChanges_resolves:
  assumes "repoPath \<noteq> []" "filePath \<noteq> []" "stage_body e repoPath filePath hunk tr = (None, tr')"
  shows "\<exists>ok. stageChanges e repoPath filePath hunk tr = (Inr ok, tr')"
  using assms by (simp add: stageChanges_def post_repo_stage_def)

lemma stageChanges_rejects:
  assumes "repoPath \<noteq> []" "filePath \<noteq> []" "stage_body e repoPath filePath hunk tr = (Some err, tr')"
  shows "stageChanges e repoPath filePath hunk tr = (Inl (Error ''Failed to stage changes''), tr')"
  using assms by (simp add: stageChanges_def post_repo_stage_def or_default_def)






lemma handleSquash_rejected:
  assumes "truthy (selectedFile st)" "truthy (selectedCommit st)"
    "squash_calls e repoPath (the_string (selectedFile st)) (the_string (selectedCommit st)) st tr
       = (Some err, tr1)"
  shows "handleSquash e repoPath st tr =
     (st\<lparr>loading := False, error := Some (message_of err), success := None\<rparr>, tr1)"
  using assms by (simp add: handleSquash_def Let_def)

lemma stage_hunks_two:
  assumes "i < length hunks" "j < length hunks"
    "stageChanges e repoPath filePath (Some (join_nl (lines (hunks ! i)))) tr = (Inr ok, tr1)"
    "stageChanges e repoPath filePath (Some (join_nl (lines (hunks ! j)))) tr1 = (Inl err, tr2)"
  shows "stage_hunks e repoPath filePath hunks [i, j] tr = (Some err, tr2)"
  using assms by simp




subsection \<open>The documents applied by a squash\<close>

lemma applied_documents_append:
  "\<exists>fs'. applied_documents e tr fs (xs @ ys) =
     applied_documents e tr fs xs @ applied_documents e (tr @ xs) fs' ys"
proof (induction xs arbitrary: tr fs)
  case Nil
  show ?case by auto
next
  case (Cons x xs)
  from Cons [of "tr @ [x]" "file_effect e tr fs x"] show ?case by auto
qed

lemma applied_documents_none:
  "\<forall>c \<in> set cs. applied_file c = None \<Longrightarrow> applied_documents e tr fs cs = []"
  by (induction cs arbitrary: tr fs) auto

lemma applied_documents_tail:
  assumes "\<forall>c \<in> set ds. applied_file c = None"
  shows "applied_documents e tr fs (cs @ ds) = applied_documents e tr fs cs"
  using applied_documents_append [of e tr fs cs ds] assms
  by (auto simp: applied_documents_none)

lemma stageChanges_documents:
  assumes repo: "repoPath \<noteq> []" and file_ne: "p \<noteq> []" and hunk: "hunk \<noteq> []"
    and run: "stageChanges e repoPath p (Some hunk) tr = (res, tr')"
  shows "\<exists>cs. tr' = tr @ cs
     \<and> (\<forall>fs. applied_documents e tr fs cs = [] \<or>
              applied_documents e tr fs cs = [Some (patchContent p hunk)])
     \<and> ((\<exists>ok. res = Inr ok) \<longrightarrow>
          (\<forall>fs. applied_documents e tr fs cs = [Some (patchContent p hunk)]))"
proof (cases "outcome e tr (write_call p hunk (now e tr))")
  case (Some err)
  from stage_body_write_fails [OF hunk Some, of repoPath]
  have "stageChanges e repoPath p (Some hunk) tr =
      (Inl (Error ''Failed to stage changes''), tr @ [write_call p hunk (now e tr)])"
    by (rule stageChanges_rejects [OF repo file_ne])
  with run show ?thesis by auto
next
  case w: None
  show ?thesis
  proof (cases "outcome e (tr @ [write_call p hunk (now e tr)]) (apply_call repoPath (now e tr))")
    case (Some err)
    from stage_body_apply_fails [OF hunk w Some] obtain err' where
      "stage_body e repoPath p (Some hunk) tr =
        (Some err', tr @ [write_call p hunk (now e tr), apply_call repoPath (now e tr),
                          unlink_call (now e tr)])" ..
    then have "stageChanges e repoPath p (Some hunk) tr =
      (Inl (Error ''Failed to stage changes''),
       tr @ [write_call p hunk (now e tr), apply_call repoPath (now e tr), unlink_call (now e tr)])"
      by (rule stageChanges_rejects [OF repo file_ne])
    with run w show ?thesis by auto
  next
    case a: None
    show ?thesis
    proof (cases "outcome e (tr @ [write_call p hunk (now e tr), apply_call repoPath (now e tr)])
       (unlink_call (now e tr))")
      case None
      from stage_body_all_ok [OF hunk w a None]
      obtain ok where "stageChanges e repoPath p (Some hunk) tr =
        (Inr ok, tr @ [write_call p hunk (now e tr), apply_call repoPath (now e tr),
                       unlink_call (now e tr)])"
        using stageChanges_resolves [OF repo file_ne] by blast
      with run w show ?thesis by auto
    next
      case (Some err)
      from stage_body_unlink_fails [OF hunk w a Some] obtain err' where
        "stage_body e repoPath p (Some hunk) tr =
          (Some err', tr @ [write_call p hunk (now e tr), apply_call repoPath (now e tr),
                            unlink_call (now e tr), unlink_call (now e tr)])" ..
      then have "stageChanges e repoPath p (Some hunk) tr =
        (Inl (Error ''Failed to stage changes''),
         tr @ [write_call p hunk (now e tr), apply_call repoPath (now e tr),
               unlink_call (now e tr), unlink_call (now e tr)])"
        by (rule stageChanges_rejects [OF repo file_ne])
      with run w show ?thesis by auto
    qed
  qed
qed

lemma stage_hunks_documents:
  assumes repo: "repoPath \<noteq> []" and file_ne: "p \<noteq> []"
    and wf: "\<forall>h \<in> set hunks. well_formed_hunk h"
  shows "\<forall>j \<in> set sel. j < length hunks \<Longrightarrow>
     stage_hunks e repoPath p hunks sel tr = (res, tr') \<Longrightarrow>
     \<exists>cs. tr' = tr @ cs
       \<and> (\<forall>fs. \<exists>n \<le> length sel. applied_documents e tr fs cs =
              map (\<lambda>j. Some (patchContent p (join_nl (lines (hunks ! j))))) (take n sel))
       \<and> (res = None \<longrightarrow>
            (\<forall>fs. applied_documents e tr fs cs =
              map (\<lambda>j. Some (patchContent p (join_nl (lines (hunks ! j))))) sel))"
proof (induction sel arbitrary: tr res tr')
  case Nil
  then show ?case by auto
next
  case (Cons j rest)
  let ?doc = "\<lambda>j. Some (patchContent p (join_nl (lines (hunks ! j))))"
  from Cons.prems(1) have j: "j < length hunks" and rest: "\<forall>k \<in> set rest. k < length hunks"
    by simp_all
  from j wf have "well_formed_hunk (hunks ! j)" by simp
  then have ne: "join_nl (lines (hunks ! j)) \<noteq> []" by (rule join_nl_well_formed)
  obtain r1 tr1 where s: "stageChanges e repoPath p (Some (join_nl (lines (hunks ! j)))) tr = (r1, tr1)"
    by (cases "stageChanges e repoPath p (Some (join_nl (lines (hunks ! j)))) tr")
  from stageChanges_documents [OF repo file_ne ne s] obtain cs1 where
    cs1: "tr1 = tr @ cs1"
      "\<forall>fs. applied_documents e tr fs cs1 = [] \<or> applied_documents e tr fs cs1 = [?doc j]"
      "(\<exists>ok. r1 = Inr ok) \<longrightarrow> (\<forall>fs. applied_documents e tr fs cs1 = [?doc j])"
    by blast
  show ?case
  proof (cases r1)
    case (Inl err)
    with Cons.prems(2) s j have "res = Some err" "tr' = tr1" by (simp_all add: Let_def)
    have "\<exists>n \<le> length (j # rest). applied_documents e tr fs cs1 = map ?doc (take n (j # rest))" for fs
    proof -
      from cs1(2) consider "applied_documents e tr fs cs1 = []"
        | "applied_documents e tr fs cs1 = [?doc j]" by blast
      then show ?thesis
      proof cases
        case 1
        then have "applied_documents e tr fs cs1 = map ?doc (take 0 (j # rest))" by simp
        then show ?thesis by blast
      next
        case 2
        then have "applied_documents e tr fs cs1 = map ?doc (take 1 (j # rest))" by simp
        moreover have "1 \<le> length (j # rest)" by simp
        ultimately show ?thesis by blast
      qed
    qed
    with \<open>res = Some err\<close> \<open>tr' = tr1\<close> cs1(1) show ?thesis by auto
  next
    case (Inr ok)
    with Cons.prems(2) s j have run: "stage_hunks e repoPath p hunks rest tr1 = (res, tr')"
      by (simp add: Let_def)
    from Cons.IH [OF rest run] obtain cs2 where
      cs2: "tr' = tr1 @ cs2"
        "\<forall>fs. \<exists>n \<le> length rest. applied_documents e tr1 fs cs2 = map ?doc (take n rest)"
        "res = None \<longrightarrow> (\<forall>fs. applied_documents e tr1 fs cs2 = map ?doc rest)"
      by blast
    from Inr cs1(3) have first: "applied_documents e tr fs cs1 = [?doc j]" for fs by blast
    have split: "\<exists>fs'. applied_documents e tr fs (cs1 @ cs2) =
        ?doc j # applied_documents e tr1 fs' cs2" for fs
      using applied_documents_append [of e tr fs cs1 cs2] first [of fs] cs1(1) by auto
    have a: "\<exists>n \<le> length (j # rest).
        applied_documents e tr fs (cs1 @ cs2) = map ?doc (take n (j # rest))" for fs
    proof -
      from split [of fs] obtain fs' where
        f: "applied_documents e tr fs (cs1 @ cs2) = ?doc j # applied_documents e tr1 fs' cs2" ..
      from cs2(2) obtain n where "n \<le> length rest"
        "applied_documents e tr1 fs' cs2 = map ?doc (take n rest)" by blast
      with f have "Suc n \<le> length (j # rest)"
        "applied_documents e tr fs (cs1 @ cs2) = map ?doc (take (Suc n) (j # rest))" by simp_all
      then show ?thesis by blast
    qed
    have b: "applied_documents e tr fs (cs1 @ cs2) = map ?doc (j # rest)" if "res = None" for fs
    proof -
      from split [of fs] obtain fs' where
        f: "applied_documents e tr fs (cs1 @ cs2) = ?doc j # applied_documents e tr1 fs' cs2" ..
      with cs2(3) that show ?thesis by simp
    qed
    from a b cs1(1) cs2(1) show ?thesis by auto
  qed
qed

lemma stageChanges_extends:
  "\<exists>cs. snd (stageChanges e repoPath p hunk tr) = tr @ cs"
  by (auto simp: stageChanges_def post_repo_stage_def stage_body_def apply_patch_file_def
      apply_catch_def perform_def Let_def split: prod.splits option.splits)

lemma stage_hunks_extends:
  "\<exists>cs. snd (stage_hunks e repoPath p hunks sel tr) = tr @ cs"
proof (induction sel arbitrary: tr)
  case Nil
  show ?case by simp
next
  case (Cons j rest)
  obtain r1 tr1 where s: "stageChanges e repoPath p (Some (join_nl (lines (hunks ! j)))) tr = (r1, tr1)"
    by (cases "stageChanges e repoPath p (Some (join_nl (lines (hunks ! j)))) tr")
  from stageChanges_extends [of e repoPath p "Some (join_nl (lines (hunks ! j)))" tr] s
  obtain cs1 where cs1: "tr1 = tr @ cs1" by auto
  from Cons [of tr1] obtain cs2 where
    cs2: "snd (stage_hunks e repoPath p hunks rest tr1) = tr1 @ cs2" ..
  show ?case
    using s cs1 cs2 by (cases r1) (auto simp: Let_def)
qed

lemma stage_hunks_first:
  assumes "i < length hunks"
  shows "\<exists>more. snd (stage_hunks e repoPath p hunks (i # rest) tr) =
           snd (stageChanges e repoPath p (Some (join_nl (lines (hunks ! i)))) tr) @ more"
proof -
  obtain r1 tr1 where s: "stageChanges e repoPath p (Some (join_nl (lines (hunks ! i)))) tr = (r1, tr1)"
    by (cases "stageChanges e repoPath p (Some (join_nl (lines (hunks ! i)))) tr")
  from stage_hunks_extends [of e repoPath p hunks rest tr1] obtain cs2 where
    "snd (stage_hunks e repoPath p hunks rest tr1) = tr1 @ cs2" ..
  with s assms show ?thesis by (cases r1) (auto simp: Let_def)
qed

lemma createFixup_trace:
  "\<exists>ds. snd (createFixup e repoPath target tr) = tr @ ds \<and> (\<forall>c \<in> set ds. applied_file c = None)"
  by (auto simp: createFixup_def post_repo_fixup_def perform_def split: prod.splits option.splits)

lemma rebase_trace:
  "\<exists>ds. snd (rebase e repoPath target tr) = tr @ ds \<and> (\<forall>c \<in> set ds. applied_file c = None)"
  by (auto simp: rebase_def post_repo_rebase_def perform_def split: prod.splits option.splits)

lemma loadData_trace:
  "\<exists>ds. snd (loadData e repoPath st tr) = tr @ ds \<and> (\<forall>c \<in> set ds. applied_file c = None)"
  by (auto simp: loadData_def Let_def getStatus_def getLog_def post_repo_status_def
      post_repo_log_def perform_def split: option.splits sum.splits prod.splits)

lemma handleSquash_after_stage:
  assumes t: "truthy (selectedFile st)" "truthy (selectedCommit st)"
    and s: "stage_selection e repoPath (the_string (selectedFile st)) st tr = (r, tr1)"
  shows "\<exists>ds. snd (handleSquash e repoPath st tr) = tr1 @ ds
      \<and> (\<forall>c \<in> set ds. applied_file c = None)
      \<and> (success (fst (handleSquash e repoPath st tr)) \<noteq> None \<longrightarrow> r = None)"
proof (cases r)
  case (Some err)
  with s have "squash_calls e repoPath (the_string (selectedFile st))
      (the_string (selectedCommit st)) st tr = (Some err, tr1)"
    by (simp add: squash_calls_def)
  from handleSquash_rejected [OF t this] show ?thesis by simp
next
  case None
  let ?target = "the_string (selectedCommit st)"
  obtain rf tr2 where f: "createFixup e repoPath ?target tr1 = (rf, tr2)"
    by (cases "createFixup e repoPath ?target tr1")
  from createFixup_trace [of e repoPath ?target tr1] f obtain d1 where
    d1: "tr2 = tr1 @ d1" "\<forall>c \<in> set d1. applied_file c = None" by auto
  show ?thesis
  proof (cases rf)
    case (Inl err)
    with s None f have "squash_calls e repoPath (the_string (selectedFile st)) ?target st tr
        = (Some err, tr2)"
      by (simp add: squash_calls_def)
    from handleSquash_rejected [OF t this] d1 show ?thesis by simp
  next
    case (Inr ok)
    obtain rr tr3 where rb: "rebase e repoPath ?target tr2 = (rr, tr3)"
      by (cases "rebase e repoPath ?target tr2")
    from rebase_trace [of e repoPath ?target tr2] rb obtain d2 where
      d2: "tr3 = tr2 @ d2" "\<forall>c \<in> set d2. applied_file c = None" by auto
    show ?thesis
    proof (cases rr)
      case (Inl err)
      with s None f Inr rb have "squash_calls e repoPath (the_string (selectedFile st)) ?target st tr
          = (Some err, tr3)"
        by (simp add: squash_calls_def)
      from handleSquash_rejected [OF t this] d1 d2 show ?thesis by auto
    next
      case ok': (Inr ok')
      with s None f Inr rb have q: "squash_calls e repoPath (the_string (selectedFile st)) ?target st tr
          = (None, tr3)"
        by (simp add: squash_calls_def)
      let ?st2 = "st\<lparr>loading := True, error := None, success := None,
                    success := Some (''Successfully squashed changes into commit '' @ take 7 ?target),
                    step := SelectFiles, selectedFile := None, selectedHunks := [],
                    selectedCommit := None, currentDiff := None\<rparr>"
      from loadData_trace [of e repoPath ?st2 tr3] obtain d3 where
        d3: "snd (loadData e repoPath ?st2 tr3) = tr3 @ d3" "\<forall>c \<in> set d3. applied_file c = None"
        by auto
      have "snd (handleSquash e repoPath st tr) = tr3 @ d3"
        using t q d3(1) by (simp add: handleSquash_def Let_def case_prod_beta)
      with d1 d2 d3(2) None show ?thesis by auto
    qed
  qed
qed

subsection \<open>Evaluation of the scenarios\<close>

lemmas workflow_eval =
  handleSquash_def squash_calls_def stage_selection_def stageChanges_def createFixup_def
  rebase_def getStatus_def getLog_def loadData_def post_repo_stage_def post_repo_fixup_def
  post_repo_rebase_def post_repo_status_def post_repo_log_def stage_body_def
  apply_patch_file_def apply_catch_def perform_def or_default_def new_calls_def Let_def

lemma tempFile_eval:
  "tempFile 1700000000000 = ''/tmp/patch-1700000000000.patch''"
  "tempFile 1700000000003 = ''/tmp/patch-1700000000003.patch''"
  by (simp_all add: tempFile_def decimal.simps)

lemma parseDiff_two_hunk_diff:
  "parseDiff two_hunk_diff =
   [\<lparr>header = ''@@ -1,2 +1,3 @@'', lines = [''@@ -1,2 +1,3 @@'', '' x'', ''+y''],
      startLine = Fin 1, endLine = Fin 2\<rparr>,
    \<lparr>header = ''@@ -10 +11,2 @@'', lines = [''@@ -10 +11,2 @@'', '' z'', ''+w'', ''''],
      startLine = Fin 11, endLine = Fin 12\<rparr>]"
  unfolding two_hunk_diff_def by (rule parseDiff_two_hunks_eval)

lemma strict_apply_eval:
  "now env_strict_apply tr = 1700000000000 + length tr"
  "outcome env_strict_apply tr (FsWriteFile f d) = None"
  "outcome env_strict_apply tr (FsUnlink f) = None"
  "outcome env_strict_apply tr (GitCommit repo m fl os) = None"
  "outcome env_strict_apply tr (GitStatus repo) = None"
  "outcome env_strict_apply tr (GitLog repo k) = None"
  "outcome env_strict_apply tr (GitRaw repo [''rebase'', ''-i'', ''--autosquash'', t]) = None"
  "outcome env_strict_apply [FsWriteFile f d] (GitRaw repo [''apply'', ''--cached'', f]) =
     (if d \<noteq> [] \<and> last d = newline then None else Some (Error ''error: corrupt patch''))"
  by (simp_all add: env_strict_apply_def env_all_ok_def)

subsection \<open>The claims about staging\<close>

text \<open>
  C4 (synthesized patch form).  The file \<open>p\<close> and the hunks \<open>i # rest\<close> of its parsed diff
  are selected.  Let \<open>doc j\<close> be the document made of the lines \<^verbatim>\<open>diff --git a/p b/p\<close>,
  \<^verbatim>\<open>--- a/p\<close>, \<^verbatim>\<open>+++ b/p\<close> and then the \<open>lines\<close> of hunk \<open>j\<close> as they are, joined with line
  feeds.  Then \<open>handleSquash\<close> first writes \<open>doc i\<close> to the transient file; when that write
  resolves, its next call applies that file; the documents passed to the apply calls of
  the squash are, in order, the \<open>doc\<close> of the selected hunks, for an initial part of the
  selection; and when the squash reports success, for the whole selection.
\<close>

theorem synthesized_patch_form:
  assumes repo: "repoPath \<noteq> []" and file_ne: "p \<noteq> []"
    and sel: "selectedFile st = Some p" "truthy (selectedCommit st)"
      "currentDiff st = Some (diffPath, parseDiff diffOutput)"
      "selectedHunks st = i # rest"
    and idx: "\<forall>j \<in> set (i # rest). j < length (parseDiff diffOutput)"
  shows
    "let doc = (\<lambda>j. join_nl ([''diff --git a/'' @ p @ '' b/'' @ p, ''--- a/'' @ p, ''+++ b/'' @ p]
                              @ lines (parseDiff diffOutput ! j)));
         tmp = tempFile (now e tr);
         calls = new_calls tr (snd (handleSquash e repoPath st tr));
         applied = applied_documents e tr fs calls
     in take 1 calls = [FsWriteFile tmp (doc i)]
        \<and> (outcome e tr (FsWriteFile tmp (doc i)) = None \<longrightarrow>
             take 2 calls = [FsWriteFile tmp (doc i), GitRaw repoPath [''apply'', ''--cached'', tmp]])
        \<and> applied = map (\<lambda>j. Some (doc j)) (take (length applied) (i # rest))
        \<and> (success (fst (handleSquash e repoPath st tr)) \<noteq> None \<longrightarrow>
             applied = map (\<lambda>j. Some (doc j)) (i # rest))"
proof -
  let ?hs = "parseDiff diffOutput"
  let ?pc = "\<lambda>j. patchContent p (join_nl (lines (?hs ! j)))"
  let ?doc = "\<lambda>j. join_nl ([''diff --git a/'' @ p @ '' b/'' @ p, ''--- a/'' @ p, ''+++ b/'' @ p]
                              @ lines (?hs ! j))"
  let ?calls = "new_calls tr (snd (handleSquash e repoPath st tr))"
  have wf: "\<forall>h \<in> set ?hs. well_formed_hunk h"
    using well_formed_parseDiff [of _ diffOutput] by blast
  have pc: "?pc j = ?doc j" if "j < length ?hs" for j
  proof -
    from that wf have "lines (?hs ! j) \<noteq> []" by (simp add: well_formed_hunk_def)
    then show ?thesis by (rule patchContent_lines)
  qed
  have t: "truthy (selectedFile st)" "truthy (selectedCommit st)"
    using sel file_ne by simp_all
  obtain r tr1 where run: "stage_hunks e repoPath p ?hs (i # rest) tr = (r, tr1)"
    by (cases "stage_hunks e repoPath p ?hs (i # rest) tr")
  then have ss: "stage_selection e repoPath (the_string (selectedFile st)) st tr = (r, tr1)"
    by (simp add: stage_selection_def sel)
  from handleSquash_after_stage [OF t ss] obtain ds where
    ds: "snd (handleSquash e repoPath st tr) = tr1 @ ds" "\<forall>c \<in> set ds. applied_file c = None"
      "success (fst (handleSquash e repoPath st tr)) \<noteq> None \<longrightarrow> r = None"
    by blast
  from stage_hunks_documents [OF repo file_ne wf idx run] obtain cs where
    cs: "tr1 = tr @ cs"
      "\<forall>fs. \<exists>n \<le> length (i # rest). applied_documents e tr fs cs =
          map (\<lambda>j. Some (?pc j)) (take n (i # rest))"
      "r = None \<longrightarrow> (\<forall>fs. applied_documents e tr fs cs = map (\<lambda>j. Some (?pc j)) (i # rest))"
    by blast
  have calls: "?calls = cs @ ds" by (simp add: ds(1) cs(1) new_calls_def)
  have applied: "applied_documents e tr fs ?calls = applied_documents e tr fs cs"
    unfolding calls using ds(2) by (rule applied_documents_tail)
  have docs: "map (\<lambda>j. Some (?pc j)) xs = map (\<lambda>j. Some (?doc j)) xs" if "set xs \<subseteq> set (i # rest)" for xs
    using that idx pc by (intro map_cong) auto
  have a3: "applied_documents e tr fs ?calls =
      map (\<lambda>j. Some (?doc j)) (take (length (applied_documents e tr fs ?calls)) (i # rest))"
  proof -
    from cs(2) obtain n where n: "n \<le> length (i # rest)"
      "applied_documents e tr fs cs = map (\<lambda>j. Some (?pc j)) (take n (i # rest))" by blast
    then have "length (applied_documents e tr fs cs) = n" by simp
    with n(2) have "applied_documents e tr fs cs =
        map (\<lambda>j. Some (?pc j)) (take (length (applied_documents e tr fs cs)) (i # rest))" by simp
    also have "\<dots> = map (\<lambda>j. Some (?doc j)) (take (length (applied_documents e tr fs cs)) (i # rest))"
      by (rule docs) (rule set_take_subset)
    finally show ?thesis by (simp add: applied)
  qed
  have a4: "applied_documents e tr fs ?calls = map (\<lambda>j. Some (?doc j)) (i # rest)"
    if "success (fst (handleSquash e repoPath st tr)) \<noteq> None"
  proof -
    from that ds(3) cs(3) have "applied_documents e tr fs cs = map (\<lambda>j. Some (?pc j)) (i # rest)"
      by blast
    also have "\<dots> = map (\<lambda>j. Some (?doc j)) (i # rest)" by (rule docs) simp
    finally show ?thesis by (simp add: applied)
  qed
  from idx have i: "i < length ?hs" by simp
  from i wf have "well_formed_hunk (?hs ! i)" by simp
  then have ne: "join_nl (lines (?hs ! i)) \<noteq> []" by (rule join_nl_well_formed)
  let ?one = "new_calls tr (snd (stageChanges e repoPath p (Some (join_nl (lines (?hs ! i)))) tr))"
  from stage_hunks_first [OF i, of e repoPath p rest tr] run obtain more where
    "tr1 = snd (stageChanges e repoPath p (Some (join_nl (lines (?hs ! i)))) tr) @ more" by auto
  moreover from stageChanges_extends [of e repoPath p "Some (join_nl (lines (?hs ! i)))" tr]
  obtain c1 where c1: "snd (stageChanges e repoPath p (Some (join_nl (lines (?hs ! i)))) tr) = tr @ c1" ..
  ultimately have calls1: "?calls = ?one @ more @ ds"
    by (simp add: ds(1) new_calls_def)
  have one1: "take 1 ?one = [FsWriteFile (tempFile (now e tr)) (?pc i)]"
    using post_repo_stage_hunk_calls(1) [OF repo file_ne ne, of tr e]
    by (simp add: snd_stageChanges)
  have one3: "take 3 ?one = [FsWriteFile (tempFile (now e tr)) (?pc i),
        GitRaw repoPath [''apply'', ''--cached'', tempFile (now e tr)],
        FsUnlink (tempFile (now e tr))]"
    if "outcome e tr (FsWriteFile (tempFile (now e tr)) (?pc i)) = None"
    using post_repo_stage_hunk_calls(2) [OF repo file_ne ne that]
    by (simp add: snd_stageChanges)
  have a1: "take 1 ?calls = [FsWriteFile (tempFile (now e tr)) (?doc i)]"
  proof -
    from one1 have "1 \<le> length ?one" by (cases ?one) simp_all
    then have "take 1 ?calls = take 1 ?one" unfolding calls1 by simp
    with one1 pc [OF i] show ?thesis by simp
  qed
  have a2: "take 2 ?calls = [FsWriteFile (tempFile (now e tr)) (?doc i),
        GitRaw repoPath [''apply'', ''--cached'', tempFile (now e tr)]]"
    if "outcome e tr (FsWriteFile (tempFile (now e tr)) (?doc i)) = None"
  proof -
    from that pc [OF i] have w: "outcome e tr (FsWriteFile (tempFile (now e tr)) (?pc i)) = None"
      by simp
    from arg_cong [OF one3 [OF w], of length] have "3 \<le> length ?one" by simp
    then have "take 2 ?calls = take 2 ?one" unfolding calls1 by simp
    also have "\<dots> = take 2 (take 3 ?one)" by simp
    finally show ?thesis using one3 [OF w] pc [OF i] by simp
  qed
  from a1 a2 a3 a4 show ?thesis unfolding Let_def by blast
qed

text \<open>
  Witness for C4: the second hunk of the two-hunk diff of \<^verbatim>\<open>a.txt\<close> is selected, on the
  backend that refuses a patch without a final line feed; the squash succeeds, and the
  one document applied is the patch of that hunk.  And both hunks are selected, the
  second first, on the backend where every call resolves; the documents applied are the
  patches of the two hunks in the order of the selection.
\<close>

theorem synthesized_patch_form_witness:
  "selectedHunks (ready_to_squash\<lparr>selectedHunks := [1]\<rparr>) = [1]
   \<and> 1 < length (parseDiff two_hunk_diff)
   \<and> success (fst (handleSquash env_strict_apply ''/repo'' (ready_to_squash\<lparr>selectedHunks := [1]\<rparr>) []))
       \<noteq> None
   \<and> take 2 (new_calls [] (snd (handleSquash env_strict_apply ''/repo''
        (ready_to_squash\<lparr>selectedHunks := [1]\<rparr>) []))) =
      [FsWriteFile ''/tmp/patch-1700000000000.patch''
         ''diff --git a/a.txt b/a.txt\<newline>--- a/a.txt\<newline>+++ b/a.txt\<newline>@@ -10 +11,2 @@\<newline> z\<newline>+w\<newline>'',
       GitRaw ''/repo'' [''apply'', ''--cached'', ''/tmp/patch-1700000000000.patch'']]
   \<and> applied_documents env_strict_apply [] Map.empty
        (new_calls [] (snd (handleSquash env_strict_apply ''/repo''
          (ready_to_squash\<lparr>selectedHunks := [1]\<rparr>) []))) =
      [Some ''diff --git a/a.txt b/a.txt\<newline>--- a/a.txt\<newline>+++ b/a.txt\<newline>@@ -10 +11,2 @@\<newline> z\<newline>+w\<newline>'']
   \<and> success (fst (handleSquash env_all_ok ''/repo'' (ready_to_squash\<lparr>selectedHunks := [1, 0]\<rparr>) []))
       \<noteq> None
   \<and> applied_documents env_all_ok [] Map.empty
        (new_calls [] (snd (handleSquash env_all_ok ''/repo''
          (ready_to_squash\<lparr>selectedHunks := [1, 0]\<rparr>) []))) =
      [Some ''diff --git a/a.txt b/a.txt\<newline>--- a/a.txt\<newline>+++ b/a.txt\<newline>@@ -10 +11,2 @@\<newline> z\<newline>+w\<newline>'',
       Some ''diff --git a/a.txt b/a.txt\<newline>--- a/a.txt\<newline>+++ b/a.txt\<newline>@@ -1,2 +1,3 @@\<newline> x\<newline>+y'']"
proof -
  let ?st = "ready_to_squash\<lparr>selectedHunks := [1]\<rparr>"
  let ?st2 = "ready_to_squash\<lparr>selectedHunks := [1, 0]\<rparr>"
  have repo: "''/repo'' \<noteq> []" and file_ne: "''a.txt'' \<noteq> []" by simp_all
  have sel: "selectedFile ?st = Some ''a.txt''" "truthy (selectedCommit ?st)"
      "currentDiff ?st = Some (''a.txt'', parseDiff two_hunk_diff)"
      "selectedHunks ?st = 1 # []"
    by (simp_all add: ready_to_squash_def)
  have sel2: "selectedFile ?st2 = Some ''a.txt''" "truthy (selectedCommit ?st2)"
      "currentDiff ?st2 = Some (''a.txt'', parseDiff two_hunk_diff)"
      "selectedHunks ?st2 = 1 # [0]"
    by (simp_all add: ready_to_squash_def)
  have idx: "\<forall>j \<in> set (1 # []). j < length (parseDiff two_hunk_diff)"
    by (simp add: parseDiff_two_hunk_diff)
  have idx2: "\<forall>j \<in> set (1 # [0]). j < length (parseDiff two_hunk_diff)"
    by (simp add: parseDiff_two_hunk_diff)
  have s: "success (fst (handleSquash env_strict_apply ''/repo'' ?st [])) \<noteq> None"
    by (simp add: workflow_eval strict_apply_eval ready_to_squash_def
        parseDiff_two_hunk_diff tempFile_eval patchContent_def newline_def)
  have s2: "success (fst (handleSquash env_all_ok ''/repo'' ?st2 [])) \<noteq> None"
    by (simp add: workflow_eval env_all_ok_def ready_to_squash_def
        parseDiff_two_hunk_diff tempFile_eval patchContent_def newline_def)
  have one: "take 2 (new_calls [] (snd (handleSquash env_strict_apply ''/repo'' ?st []))) =
      [FsWriteFile ''/tmp/patch-1700000000000.patch''
         ''diff --git a/a.txt b/a.txt\<newline>--- a/a.txt\<newline>+++ b/a.txt\<newline>@@ -10 +11,2 @@\<newline> z\<newline>+w\<newline>'',
       GitRaw ''/repo'' [''apply'', ''--cached'', ''/tmp/patch-1700000000000.patch'']]
   \<and> applied_documents env_strict_apply [] Map.empty
        (new_calls [] (snd (handleSquash env_strict_apply ''/repo'' ?st []))) =
      [Some ''diff --git a/a.txt b/a.txt\<newline>--- a/a.txt\<newline>+++ b/a.txt\<newline>@@ -10 +11,2 @@\<newline> z\<newline>+w\<newline>'']"
    using synthesized_patch_form [OF repo file_ne sel idx, of env_strict_apply "[]" Map.empty] s
    by (simp add: Let_def strict_apply_eval parseDiff_two_hunk_diff tempFile_eval newline_def
        ready_to_squash_def)
  have two: "applied_documents env_all_ok [] Map.empty
        (new_calls [] (snd (handleSquash env_all_ok ''/repo'' ?st2 []))) =
      [Some ''diff --git a/a.txt b/a.txt\<newline>--- a/a.txt\<newline>+++ b/a.txt\<newline>@@ -10 +11,2 @@\<newline> z\<newline>+w\<newline>'',
       Some ''diff --git a/a.txt b/a.txt\<newline>--- a/a.txt\<newline>+++ b/a.txt\<newline>@@ -1,2 +1,3 @@\<newline> x\<newline>+y'']"
    using synthesized_patch_form [OF repo file_ne sel2 idx2, of env_all_ok "[]" Map.empty] s2
    by (simp add: Let_def parseDiff_two_hunk_diff newline_def)
  from one two s s2 show ?thesis
    by (simp add: parseDiff_two_hunk_diff)
qed

text \<open>
  C10 (empty hunk).  A stage request whose \<^verbatim>\<open>hunk\<close> is the empty string makes exactly
  one backend call, the add of the file path.  A request with a \<^verbatim>\<open>hunk\<close> string starts
  with the write of the synthesized patch if and only if the string is not empty; for a
  non-empty hunk whose write resolves the next two calls are the apply of the written
  file and its unlink; a request with a non-empty hunk never adds the file; and the apply
  is called if and only if the hunk is not empty and the write resolves.
\<close>

theorem stage_empty_hunk_is_whole_file:
  assumes "repoPath \<noteq> []" "filePath \<noteq> []"
  shows "new_calls tr (snd (post_repo_stage e (Some repoPath) (Some filePath) (Some []) tr))
           = [GitAdd repoPath filePath]
     \<and> (take 1 (new_calls tr (snd (post_repo_stage e (Some repoPath) (Some filePath) (Some hunk) tr)))
           = [FsWriteFile (tempFile (now e tr)) (patchContent filePath hunk)]
         \<longleftrightarrow> hunk \<noteq> [])
     \<and> (hunk \<noteq> [] \<and> outcome e tr (FsWriteFile (tempFile (now e tr)) (patchContent filePath hunk)) = None
         \<longrightarrow> take 3 (new_calls tr (snd (post_repo_stage e (Some repoPath) (Some filePath) (Some hunk) tr)))
           = [FsWriteFile (tempFile (now e tr)) (patchContent filePath hunk),
              GitRaw repoPath [''apply'', ''--cached'', tempFile (now e tr)],
              FsUnlink (tempFile (now e tr))])
     \<and> (hunk \<noteq> [] \<longrightarrow> GitAdd repoPath filePath
           \<notin> set (new_calls tr (snd (post_repo_stage e (Some repoPath) (Some filePath) (Some hunk) tr))))
     \<and> (GitRaw repoPath [''apply'', ''--cached'', tempFile (now e tr)]
           \<in> set (new_calls tr (snd (post_repo_stage e (Some repoPath) (Some filePath) (Some hunk) tr)))
         \<longleftrightarrow> hunk \<noteq> [] \<and> outcome e tr (FsWriteFile (tempFile (now e tr)) (patchContent filePath hunk)) = None)"
proof -
  let ?calls = "new_calls tr (snd (post_repo_stage e (Some repoPath) (Some filePath) (Some hunk) tr))"
  let ?w = "FsWriteFile (tempFile (now e tr)) (patchContent filePath hunk)"
  let ?a = "GitRaw repoPath [''apply'', ''--cached'', tempFile (now e tr)]"
  have a: "new_calls tr (snd (post_repo_stage e (Some repoPath) (Some filePath) (Some []) tr))
           = [GitAdd repoPath filePath]"
    using assms by (simp add: snd_post_repo_stage stage_body_whole_file new_calls_append)
  have b: "take 1 ?calls = [?w]" if "hunk \<noteq> []"
    using post_repo_stage_hunk_calls(1) [OF assms that] .
  have c: "take 1 ?calls \<noteq> [?w]" if "hunk = []"
    using a that by simp
  have d: "take 3 ?calls = [?w, ?a, FsUnlink (tempFile (now e tr))]"
    if "hunk \<noteq> []" "outcome e tr ?w = None"
    using post_repo_stage_hunk_calls(2) [OF assms that] .
  have f: "GitAdd repoPath filePath \<notin> set ?calls" if "hunk \<noteq> []"
    using post_repo_stage_hunk_calls(4) [OF assms that] .
  have g1: "?a \<in> set ?calls" if "hunk \<noteq> []" "outcome e tr ?w = None"
  proof -
    have "?a \<in> set (take 3 ?calls)" by (simp add: d [OF that])
    then show ?thesis by (rule in_set_takeD)
  qed
  have g2: "?a \<notin> set ?calls" if "hunk = []"
    using a that by simp
  have g3: "?a \<notin> set ?calls" if "hunk \<noteq> []" "outcome e tr ?w \<noteq> None"
    using post_repo_stage_hunk_calls(3) [OF assms that] by simp
  from a b c d f g1 g2 g3 show ?thesis by blast
qed

text \<open>
  Witness for C10: the empty hunk adds \<^verbatim>\<open>a.txt\<close>; a hunk of one header line is written,
  applied and unlinked.
\<close>

theorem stage_empty_hunk_is_whole_file_witness:
  "''/repo'' \<noteq> [] \<and> ''a.txt'' \<noteq> []
   \<and> new_calls [] (snd (post_repo_stage env_all_ok (Some ''/repo'') (Some ''a.txt'') (Some []) []))
       = [GitAdd ''/repo'' ''a.txt'']
   \<and> outcome env_all_ok []
        (FsWriteFile ''/tmp/patch-1700000000000.patch''
           ''diff --git a/a.txt b/a.txt\<newline>--- a/a.txt\<newline>+++ b/a.txt\<newline>@@ -1 +1 @@'') = None
   \<and> take 3 (new_calls [] (snd (post_repo_stage env_all_ok (Some ''/repo'') (Some ''a.txt'')
        (Some ''@@ -1 +1 @@'') [])))
       = [FsWriteFile ''/tmp/patch-1700000000000.patch''
           ''diff --git a/a.txt b/a.txt\<newline>--- a/a.txt\<newline>+++ b/a.txt\<newline>@@ -1 +1 @@'',
          GitRaw ''/repo'' [''apply'', ''--cached'', ''/tmp/patch-1700000000000.patch''],
          FsUnlink ''/tmp/patch-1700000000000.patch'']"
proof -
  have r: "''/repo'' \<noteq> []" and f: "''a.txt'' \<noteq> []" by simp_all
  have t: "now env_all_ok [] = 1700000000000" "outcome env_all_ok [] c = None" for c
    by (simp_all add: env_all_ok_def)
  from stage_empty_hunk_is_whole_file [OF r f, of "[]" env_all_ok "''@@ -1 +1 @@''"]
  show ?thesis
    by (simp add: t tempFile_eval patchContent_def newline_def)
qed

text \<open>
  C7 (cleanup without error masking): what the code does where the claim fails.  In a
  hunk-stage request the write resolves, the apply rejects with \<open>apply_error\<close>, and the
  unlink in the \<^verbatim>\<open>catch\<close> block rejects with \<open>unlink_error\<close>.  Then the \<^verbatim>\<open>details\<close> of
  the response are the message of \<open>unlink_error\<close>, whatever \<open>apply_error\<close> is: the rejected
  \<^verbatim>\<open>await fs.unlink(tempFile)\<close> leaves the \<^verbatim>\<open>catch\<close> block before \<^verbatim>\<open>throw error\<close>.
\<close>

theorem cleanup_error_masks_apply_error:
  assumes "repoPath \<noteq> []" "filePath \<noteq> []" "hunk \<noteq> []"
    and "outcome e tr (FsWriteFile (tempFile (now e tr)) (patchContent filePath hunk)) = None"
    and "outcome e (tr @ [FsWriteFile (tempFile (now e tr)) (patchContent filePath hunk)])
           (GitRaw repoPath [''apply'', ''--cached'', tempFile (now e tr)]) = Some apply_error"
    and "outcome e (tr @ [FsWriteFile (tempFile (now e tr)) (patchContent filePath hunk),
                          GitRaw repoPath [''apply'', ''--cached'', tempFile (now e tr)]])
           (FsUnlink (tempFile (now e tr))) = Some unlink_error"
  shows "post_repo_stage e (Some repoPath) (Some filePath) (Some hunk) tr =
     (Err500 ''Failed to stage changes'' (message_of unlink_error),
      tr @ [FsWriteFile (tempFile (now e tr)) (patchContent filePath hunk),
            GitRaw repoPath [''apply'', ''--cached'', tempFile (now e tr)],
            FsUnlink (tempFile (now e tr))])"
  using assms
  by (simp add: post_repo_stage_def stage_body_def apply_patch_file_def apply_catch_def
      perform_def Let_def)

text \<open>
  The failing input of C7: the apply rejects with \<^verbatim>\<open>error: patch failed: a.txt:1\<close>, the
  unlink with \<^verbatim>\<open>EPERM: operation not permitted, unlink\<close>, and the response carries the
  latter.
\<close>

theorem cleanup_error_masks_apply_error_witness:
  "outcome env_apply_and_unlink_fail
        [FsWriteFile ''/tmp/patch-1700000000000.patch''
          ''diff --git a/a.txt b/a.txt\<newline>--- a/a.txt\<newline>+++ b/a.txt\<newline>@@ -1 +1 @@\<newline>-a\<newline>+b\<newline>'']
        (GitRaw ''/repo'' [''apply'', ''--cached'', ''/tmp/patch-1700000000000.patch''])
      = Some (Error ''error: patch failed: a.txt:1'')
   \<and> post_repo_stage env_apply_and_unlink_fail (Some ''/repo'') (Some ''a.txt'')
     (Some ''@@ -1 +1 @@\<newline>-a\<newline>+b\<newline>'') [] =
   (Err500 ''Failed to stage changes'' ''EPERM: operation not permitted, unlink'',
    [FsWriteFile ''/tmp/patch-1700000000000.patch''
       ''diff --git a/a.txt b/a.txt\<newline>--- a/a.txt\<newline>+++ b/a.txt\<newline>@@ -1 +1 @@\<newline>-a\<newline>+b\<newline>'',
     GitRaw ''/repo'' [''apply'', ''--cached'', ''/tmp/patch-1700000000000.patch''],
     FsUnlink ''/tmp/patch-1700000000000.patch''])"
proof -
  let ?e = env_apply_and_unlink_fail
  let ?hunk = "''@@ -1 +1 @@\<newline>-a\<newline>+b\<newline>''"
  have ne: "''/repo'' \<noteq> []" "''a.txt'' \<noteq> []" "?hunk \<noteq> []" by simp_all
  have t: "now ?e [] = 1700000000000"
    by (simp add: env_apply_and_unlink_fail_def env_all_ok_def)
  have w: "outcome ?e [] (FsWriteFile (tempFile (now ?e [])) (patchContent ''a.txt'' ?hunk)) = None"
    by (simp add: env_apply_and_unlink_fail_def env_all_ok_def)
  have a: "outcome ?e ([] @ [FsWriteFile (tempFile (now ?e [])) (patchContent ''a.txt'' ?hunk)])
           (GitRaw ''/repo'' [''apply'', ''--cached'', tempFile (now ?e [])])
           = Some (Error ''error: patch failed: a.txt:1'')"
    by (simp add: env_apply_and_unlink_fail_def env_all_ok_def)
  have u: "outcome ?e ([] @ [FsWriteFile (tempFile (now ?e [])) (patchContent ''a.txt'' ?hunk),
                          GitRaw ''/repo'' [''apply'', ''--cached'', tempFile (now ?e [])]])
           (FsUnlink (tempFile (now ?e []))) = Some (Error ''EPERM: operation not permitted, unlink'')"
    by (simp add: env_apply_and_unlink_fail_def env_all_ok_def)
  from cleanup_error_masks_apply_error [OF ne w a u] a show ?thesis
    by (simp add: t tempFile_eval patchContent_def newline_def)
qed

lemma squash_same_millisecond_eval:
  "new_calls [] (snd (handleSquash env_same_ms ''/repo'' (ready_to_squash\<lparr>selectedHunks := [0, 1]\<rparr>) [])) =
      [FsWriteFile ''/tmp/patch-1700000000000.patch''
        ''diff --git a/a.txt b/a.txt\<newline>--- a/a.txt\<newline>+++ b/a.txt\<newline>@@ -1,2 +1,3 @@\<newline> x\<newline>+y'',
       GitRaw ''/repo'' [''apply'', ''--cached'', ''/tmp/patch-1700000000000.patch''],
       FsUnlink ''/tmp/patch-1700000000000.patch'',
       FsWriteFile ''/tmp/patch-1700000000000.patch''
        ''diff --git a/a.txt b/a.txt\<newline>--- a/a.txt\<newline>+++ b/a.txt\<newline>@@ -10 +11,2 @@\<newline> z\<newline>+w\<newline>'',
       GitRaw ''/repo'' [''apply'', ''--cached'', ''/tmp/patch-1700000000000.patch''],
       FsUnlink ''/tmp/patch-1700000000000.patch'',
       GitCommit ''/repo'' ''fixup! abc1234'' [] [(''--fixup'', ''abc1234'')],
       GitRaw ''/repo'' [''rebase'', ''-i'', ''--autosquash'', ''abc1234^''],
       GitStatus ''/repo'',
       GitLog ''/repo'' 50]"
  by (simp add: workflow_eval env_same_ms_def env_all_ok_def ready_to_squash_def
      parseDiff_two_hunk_diff tempFile_eval patchContent_def newline_def)

text \<open>
  C9 (collision-free transient naming): what the code does where the claim fails.  The
  path of the transient file depends on the reading of the clock only.  Two hunk-stage
  requests, for the hunks \<open>hunk1\<close> and \<open>hunk2\<close>, at which the clock reads the same
  millisecond write their patches to the same path.
\<close>

theorem same_millisecond_same_path:
  assumes "repoPath \<noteq> []" "filePath \<noteq> []" "hunk1 \<noteq> []" "hunk2 \<noteq> []"
    and "now e tr1 = now e tr2"
  shows "take 1 (new_calls tr1 (snd (post_repo_stage e (Some repoPath) (Some filePath) (Some hunk1) tr1)))
           = [FsWriteFile (tempFile (now e tr1)) (patchContent filePath hunk1)]
       \<and> take 1 (new_calls tr2 (snd (post_repo_stage e (Some repoPath) (Some filePath) (Some hunk2) tr2)))
           = [FsWriteFile (tempFile (now e tr1)) (patchContent filePath hunk2)]"
proof -
  have "take 1 (new_calls tr (snd (post_repo_stage e (Some repoPath) (Some filePath) (Some hunk) tr)))
           = [FsWriteFile (tempFile (now e tr)) (patchContent filePath hunk)]" if "hunk \<noteq> []" for hunk tr
    using stage_body_hunk_calls [OF that, of tr e repoPath filePath] assms(1,2)
    by (auto simp: snd_post_repo_stage)
  from this [OF assms(3), of tr1] this [OF assms(4), of tr2] assms(5) show ?thesis by simp
qed

text \<open>
  The failing input of C9: the two stage requests of a squash of both hunks of the
  two-hunk diff, with a clock that reads 1700000000000 at both.
\<close>

theorem same_millisecond_same_path_witness:
  "now env_same_ms [] =
     now env_same_ms
       [FsWriteFile ''/tmp/patch-1700000000000.patch''
          ''diff --git a/a.txt b/a.txt\<newline>--- a/a.txt\<newline>+++ b/a.txt\<newline>@@ -1,2 +1,3 @@\<newline> x\<newline>+y'',
        GitRaw ''/repo'' [''apply'', ''--cached'', ''/tmp/patch-1700000000000.patch''],
        FsUnlink ''/tmp/patch-1700000000000.patch'']
   \<and> take 1 (new_calls [] (snd (post_repo_stage env_same_ms (Some ''/repo'') (Some ''a.txt'')
        (Some ''@@ -1,2 +1,3 @@\<newline> x\<newline>+y'') [])))
       = [FsWriteFile ''/tmp/patch-1700000000000.patch''
           ''diff --git a/a.txt b/a.txt\<newline>--- a/a.txt\<newline>+++ b/a.txt\<newline>@@ -1,2 +1,3 @@\<newline> x\<newline>+y'']
   \<and> take 1 (new_calls
        [FsWriteFile ''/tmp/patch-1700000000000.patch''
          ''diff --git a/a.txt b/a.txt\<newline>--- a/a.txt\<newline>+++ b/a.txt\<newline>@@ -1,2 +1,3 @@\<newline> x\<newline>+y'',
         GitRaw ''/repo'' [''apply'', ''--cached'', ''/tmp/patch-1700000000000.patch''],
         FsUnlink ''/tmp/patch-1700000000000.patch'']
        (snd (post_repo_stage env_same_ms (Some ''/repo'') (Some ''a.txt'')
          (Some ''@@ -10 +11,2 @@\<newline> z\<newline>+w\<newline>'')
          [FsWriteFile ''/tmp/patch-1700000000000.patch''
            ''diff --git a/a.txt b/a.txt\<newline>--- a/a.txt\<newline>+++ b/a.txt\<newline>@@ -1,2 +1,3 @@\<newline> x\<newline>+y'',
           GitRaw ''/repo'' [''apply'', ''--cached'', ''/tmp/patch-1700000000000.patch''],
           FsUnlink ''/tmp/patch-1700000000000.patch''])))
       = [FsWriteFile ''/tmp/patch-1700000000000.patch''
           ''diff --git a/a.txt b/a.txt\<newline>--- a/a.txt\<newline>+++ b/a.txt\<newline>@@ -10 +11,2 @@\<newline> z\<newline>+w\<newline>'']"
proof -
  let ?tr2 = "[FsWriteFile ''/tmp/patch-1700000000000.patch''
          ''diff --git a/a.txt b/a.txt\<newline>--- a/a.txt\<newline>+++ b/a.txt\<newline>@@ -1,2 +1,3 @@\<newline> x\<newline>+y'',
        GitRaw ''/repo'' [''apply'', ''--cached'', ''/tmp/patch-1700000000000.patch''],
        FsUnlink ''/tmp/patch-1700000000000.patch'']"
  have ne: "''/repo'' \<noteq> []" "''a.txt'' \<noteq> []" "''@@ -1,2 +1,3 @@\<newline> x\<newline>+y'' \<noteq> []"
    "''@@ -10 +11,2 @@\<newline> z\<newline>+w\<newline>'' \<noteq> []" by simp_all
  have t: "now env_same_ms [] = now env_same_ms ?tr2" "now env_same_ms [] = 1700000000000"
    by (simp_all add: env_same_ms_def env_all_ok_def)
  from same_millisecond_same_path [OF ne t(1)] t(1) show ?thesis
    by (simp add: t(2) tempFile_eval patchContent_def newline_def)
qed

subsection \<open>The claims about the squash workflow\<close>

text \<open>
  C6 (fail-fast validation).  With no target commit selected, or no file selected,
  \<open>handleSquash\<close> makes no backend call (the trace is unchanged) and changes nothing in
  the state but the error message, which it sets to the validation error.
\<close>

theorem squash_fail_fast:
  assumes "\<not> truthy (selectedCommit st) \<or> \<not> truthy (selectedFile st)"
  shows "handleSquash e repoPath st tr =
     (st\<lparr>error := Some ''Please select a file and target commit''\<rparr>, tr)"
  using assms by (auto simp: handleSquash_def)

text \<open>Witness for C6: the state of the scenario with the target commit cleared.\<close>

theorem squash_fail_fast_witness:
  "\<not> truthy (selectedCommit (ready_to_squash\<lparr>selectedCommit := None\<rparr>))
   \<and> handleSquash env_all_ok ''/repo'' (ready_to_squash\<lparr>selectedCommit := None\<rparr>) [] =
     (ready_to_squash\<lparr>selectedCommit := None,
                      error := Some ''Please select a file and target commit''\<rparr>, [])"
  using squash_fail_fast [of "ready_to_squash\<lparr>selectedCommit := None\<rparr>" env_all_ok "''/repo''" "[]"]
  by simp




text \<open>
  C8 (partial failure).  Two hunks \<open>i\<close> and \<open>j\<close> are selected; all three calls that stage
  hunk \<open>i\<close> resolve (\<open>w1\<close>, \<open>a1\<close>, \<open>u1\<close>), the write for hunk \<open>j\<close> resolves (\<open>w2\<close>) and its
  apply rejects (\<open>a2\<close>).  Then the calls of \<open>handleSquash\<close> are exactly these five and the
  unlink \<open>u2\<close>: nothing after the resolved apply \<open>a1\<close> undoes it, no fixup commit and no
  rebase is called.  The reported error is \<^verbatim>\<open>Failed to stage changes\<close>, and the selection
  is as before.
\<close>

theorem apply_failure_mid_squash:
  assumes repo: "repoPath \<noteq> []" and file_ne: "filePath \<noteq> []"
    and sel: "selectedFile st = Some filePath" "truthy (selectedCommit st)"
      "selectedHunks st = [i, j]" "currentDiff st = Some (diffPath, parseDiff diffOutput)"
    and idx: "i < length (parseDiff diffOutput)" "j < length (parseDiff diffOutput)"
    and calls1: "w1 = FsWriteFile (tempFile (now e tr))
                        (patchContent filePath (join_nl (lines (parseDiff diffOutput ! i))))"
      "a1 = GitRaw repoPath [''apply'', ''--cached'', tempFile (now e tr)]"
      "u1 = FsUnlink (tempFile (now e tr))"
    and calls2: "w2 = FsWriteFile (tempFile (now e (tr @ [w1, a1, u1])))
                        (patchContent filePath (join_nl (lines (parseDiff diffOutput ! j))))"
      "a2 = GitRaw repoPath [''apply'', ''--cached'', tempFile (now e (tr @ [w1, a1, u1]))]"
      "u2 = FsUnlink (tempFile (now e (tr @ [w1, a1, u1])))"
    and first: "outcome e tr w1 = None" "outcome e (tr @ [w1]) a1 = None"
      "outcome e (tr @ [w1, a1]) u1 = None"
    and second: "outcome e (tr @ [w1, a1, u1]) w2 = None"
      "outcome e (tr @ [w1, a1, u1, w2]) a2 = Some err"
  shows "handleSquash e repoPath st tr =
     (st\<lparr>loading := False, error := Some ''Failed to stage changes'', success := None\<rparr>,
      tr @ [w1, a1, u1, w2, a2, u2])"
proof -
  let ?hs = "parseDiff diffOutput"
  let ?c1 = "join_nl (lines (?hs ! i))"
  let ?c2 = "join_nl (lines (?hs ! j))"
  let ?tr1 = "tr @ [w1, a1, u1]"
  let ?tr2 = "tr @ [w1, a1, u1, w2, a2, u2]"
  have n1: "?c1 \<noteq> []"
    using idx(1) by (intro join_nl_well_formed well_formed_parseDiff [of _ diffOutput]) simp
  have n2: "?c2 \<noteq> []"
    using idx(2) by (intro join_nl_well_formed well_formed_parseDiff [of _ diffOutput]) simp
  have "stage_body e repoPath filePath (Some ?c1) tr = (None, ?tr1)"
    using stage_body_all_ok [OF n1, of e tr filePath repoPath] first by (simp add: calls1)
  then obtain ok where s1: "stageChanges e repoPath filePath (Some ?c1) tr = (Inr ok, ?tr1)"
    using stageChanges_resolves [OF repo file_ne] by blast
  have "\<exists>err'. stage_body e repoPath filePath (Some ?c2) ?tr1 = (Some err', ?tr2)"
    using stage_body_apply_fails [OF n2, of e ?tr1 filePath repoPath] second
    by (simp add: calls2)
  then have s2: "stageChanges e repoPath filePath (Some ?c2) ?tr1 =
      (Inl (Error ''Failed to stage changes''), ?tr2)"
    using stageChanges_rejects [OF repo file_ne] by blast
  have "stage_hunks e repoPath filePath ?hs [i, j] tr = (Some (Error ''Failed to stage changes''), ?tr2)"
    using idx s1 s2 by (rule stage_hunks_two)
  then have "stage_selection e repoPath filePath st tr = (Some (Error ''Failed to stage changes''), ?tr2)"
    by (simp add: stage_selection_def sel)
  then have "squash_calls e repoPath (the_string (selectedFile st)) (the_string (selectedCommit st)) st tr
      = (Some (Error ''Failed to stage changes''), ?tr2)"
    by (simp add: squash_calls_def sel)
  with handleSquash_rejected [of st e repoPath tr "Error ''Failed to stage changes''" ?tr2] sel file_ne
  show ?thesis by simp
qed

text \<open>Witness for C8: both hunks of the two-hunk diff, on the backend that rejects the
  second apply.\<close>

theorem apply_failure_mid_squash_witness:
  "outcome env_second_apply_fails
     [FsWriteFile ''/tmp/patch-1700000000000.patch''
        ''diff --git a/a.txt b/a.txt\<newline>--- a/a.txt\<newline>+++ b/a.txt\<newline>@@ -1,2 +1,3 @@\<newline> x\<newline>+y'',
      GitRaw ''/repo'' [''apply'', ''--cached'', ''/tmp/patch-1700000000000.patch''],
      FsUnlink ''/tmp/patch-1700000000000.patch'',
      FsWriteFile ''/tmp/patch-1700000000003.patch''
        ''diff --git a/a.txt b/a.txt\<newline>--- a/a.txt\<newline>+++ b/a.txt\<newline>@@ -10 +11,2 @@\<newline> z\<newline>+w\<newline>'']
     (GitRaw ''/repo'' [''apply'', ''--cached'', ''/tmp/patch-1700000000003.patch''])
     = Some (Error ''error: patch failed: a.txt:10'')
   \<and> handleSquash env_second_apply_fails ''/repo'' (ready_to_squash\<lparr>selectedHunks := [0, 1]\<rparr>) [] =
     (ready_to_squash\<lparr>selectedHunks := [0, 1], loading := False,
                      error := Some ''Failed to stage changes'', success := None\<rparr>,
      [FsWriteFile ''/tmp/patch-1700000000000.patch''
        ''diff --git a/a.txt b/a.txt\<newline>--- a/a.txt\<newline>+++ b/a.txt\<newline>@@ -1,2 +1,3 @@\<newline> x\<newline>+y'',
       GitRaw ''/repo'' [''apply'', ''--cached'', ''/tmp/patch-1700000000000.patch''],
       FsUnlink ''/tmp/patch-1700000000000.patch'',
       FsWriteFile ''/tmp/patch-1700000000003.patch''
        ''diff --git a/a.txt b/a.txt\<newline>--- a/a.txt\<newline>+++ b/a.txt\<newline>@@ -10 +11,2 @@\<newline> z\<newline>+w\<newline>'',
       GitRaw ''/repo'' [''apply'', ''--cached'', ''/tmp/patch-1700000000003.patch''],
       FsUnlink ''/tmp/patch-1700000000003.patch''])"
proof -
  let ?st = "ready_to_squash\<lparr>selectedHunks := [0, 1]\<rparr>"
  let ?w1 = "FsWriteFile ''/tmp/patch-1700000000000.patch''
        ''diff --git a/a.txt b/a.txt\<newline>--- a/a.txt\<newline>+++ b/a.txt\<newline>@@ -1,2 +1,3 @@\<newline> x\<newline>+y''"
  let ?a1 = "GitRaw ''/repo'' [''apply'', ''--cached'', ''/tmp/patch-1700000000000.patch'']"
  let ?u1 = "FsUnlink ''/tmp/patch-1700000000000.patch''"
  let ?w2 = "FsWriteFile ''/tmp/patch-1700000000003.patch''
        ''diff --git a/a.txt b/a.txt\<newline>--- a/a.txt\<newline>+++ b/a.txt\<newline>@@ -10 +11,2 @@\<newline> z\<newline>+w\<newline>''"
  let ?a2 = "GitRaw ''/repo'' [''apply'', ''--cached'', ''/tmp/patch-1700000000003.patch'']"
  let ?u2 = "FsUnlink ''/tmp/patch-1700000000003.patch''"
  have repo: "''/repo'' \<noteq> []" and file_ne: "''a.txt'' \<noteq> []" by simp_all
  have sel: "selectedFile ?st = Some ''a.txt''" "truthy (selectedCommit ?st)"
      "selectedHunks ?st = [0, 1]" "currentDiff ?st = Some (''a.txt'', parseDiff two_hunk_diff)"
    by (simp_all add: ready_to_squash_def)
  have idx: "0 < length (parseDiff two_hunk_diff)" "1 < length (parseDiff two_hunk_diff)"
    by (simp_all add: parseDiff_two_hunk_diff)
  have t: "now env_second_apply_fails [] = 1700000000000"
    "now env_second_apply_fails [?w1, ?a1, ?u1] = 1700000000003"
    by (simp_all add: env_second_apply_fails_def env_all_ok_def)
  have calls1: "?w1 = FsWriteFile (tempFile (now env_second_apply_fails []))
                        (patchContent ''a.txt'' (join_nl (lines (parseDiff two_hunk_diff ! 0))))"
      "?a1 = GitRaw ''/repo'' [''apply'', ''--cached'', tempFile (now env_second_apply_fails [])]"
      "?u1 = FsUnlink (tempFile (now env_second_apply_fails []))"
    by (simp_all add: t tempFile_eval parseDiff_two_hunk_diff patchContent_def newline_def)
  have calls2: "?w2 = FsWriteFile (tempFile (now env_second_apply_fails ([] @ [?w1, ?a1, ?u1])))
                        (patchContent ''a.txt'' (join_nl (lines (parseDiff two_hunk_diff ! 1))))"
      "?a2 = GitRaw ''/repo'' [''apply'', ''--cached'',
               tempFile (now env_second_apply_fails ([] @ [?w1, ?a1, ?u1]))]"
      "?u2 = FsUnlink (tempFile (now env_second_apply_fails ([] @ [?w1, ?a1, ?u1])))"
    by (simp_all add: t tempFile_eval parseDiff_two_hunk_diff patchContent_def newline_def)
  have first: "outcome env_second_apply_fails [] ?w1 = None"
      "outcome env_second_apply_fails ([] @ [?w1]) ?a1 = None"
      "outcome env_second_apply_fails ([] @ [?w1, ?a1]) ?u1 = None"
    by (simp_all add: env_second_apply_fails_def env_all_ok_def)
  have second: "outcome env_second_apply_fails ([] @ [?w1, ?a1, ?u1]) ?w2 = None"
      "outcome env_second_apply_fails ([] @ [?w1, ?a1, ?u1, ?w2]) ?a2
         = Some (Error ''error: patch failed: a.txt:10'')"
    by (simp_all add: env_second_apply_fails_def env_all_ok_def)
  from apply_failure_mid_squash [OF repo file_ne sel idx calls1 calls2 first second] second(2)
  show ?thesis by simp
qed

end
